theory Spec2Isabelle
  imports Main "HOL-Library.Word"
begin

section \<open>mDNS discovery (brewblox_mdns/dns_discovery.py)\<close>

text \<open>
  The module browses for one mDNS service type, resolves every announced instance and
  hands the resolved infos to an asynchronous generator, \<^verbatim>\<open>_discover\<close>, through a queue.
  Two wrappers consume the generator under a timeout: \<^verbatim>\<open>discover_one\<close> and
  \<^verbatim>\<open>discover_all\<close>.
\<close>

subsection \<open>Strings and addresses\<close>

text \<open>
  A Python \<^verbatim>\<open>str\<close> is a sequence of Unicode code points: \<open>pystr\<close>, with \<open>py\<close> for the
  literals of the source. Slicing and \<^verbatim>\<open>len\<close> count code points.
\<close>

type_synonym pystr = "nat list"

definition py :: "string \<Rightarrow> pystr" where
  "py s = map of_char s"

text \<open>
  \<^verbatim>\<open>str.lower\<close> belongs to the interpreter, it follows the Unicode tables and is not
  character by character (a capital sigma depends on what follows it, and one character
  can become two). Every definition below that calls it takes it as the parameter \<open>lw\<close>,
  about which nothing is assumed. On a \<^verbatim>\<open>str\<close> of ASCII characters \<^verbatim>\<open>str.lower\<close> is
  \<open>ascii_lower\<close>; a property that needs this says so, for the strings it concerns.
\<close>

definition ascii_lower_char :: "nat \<Rightarrow> nat" where
  "ascii_lower_char c = (if 65 \<le> c \<and> c \<le> 90 then c + 32 else c)"

definition ascii_lower :: "pystr \<Rightarrow> pystr" where
  "ascii_lower s = map ascii_lower_char s"

definition is_ascii :: "pystr \<Rightarrow> bool" where
  "is_ascii s = list_all (\<lambda>c. c < 128) s"

text \<open>Lines 16 and 17, the defaults of the module.\<close>

definition BREWBLOX_DNS_TYPE :: pystr where
  "BREWBLOX_DNS_TYPE = py ''_brewblox._tcp.local.''"

definition DEFAULT_TIMEOUT_S :: nat where
  "DEFAULT_TIMEOUT_S = 5"

definition digit :: "nat \<Rightarrow> char" where
  "digit d = char_of (48 + d)"

function str :: "nat \<Rightarrow> string" where
  "str n = (if n < 10 then [digit n] else str (n div 10) @ [digit (n mod 10)])"
  by pat_completeness auto
termination
  by (relation "measure (\<lambda>n. n)") auto

declare str.simps [simp del]

fun join :: "string \<Rightarrow> string list \<Rightarrow> string" where
  "join sep [] = []"
| "join sep [x] = x"
| "join sep (x # y # ys) = x @ sep @ join sep (y # ys)"

datatype error =
  AttributeError | TypeError | OSError | UnboundLocalError | CancelledError | TimeoutError

text \<open>
  \<^verbatim>\<open>socket.inet_ntoa\<close>: four packed bytes to dotted decimal; any other length raises
  \<^verbatim>\<open>OSError\<close>.
\<close>

definition inet_ntoa :: "8 word list \<Rightarrow> error + pystr" where
  "inet_ntoa b =
     (if length b = 4 then Inr (py (join ''.'' (map (\<lambda>w. str (unat w)) b))) else Inl OSError)"

subsection \<open>Service infos and the loop body of \<^verbatim>\<open>_discover\<close>\<close>

text \<open>
  What \<^verbatim>\<open>conf.get_service_info\<close> resolves to is either an info object or \<^verbatim>\<open>None\<close>
  (the fetch failed); \<^verbatim>\<open>add_service\<close> puts either one on the queue. The \<open>address\<close> of
  an info object is \<^verbatim>\<open>None\<close> when no IPv4 address was resolved.
\<close>

record service_info =
  address :: "8 word list option"
  port :: int
  server :: pystr
  name :: pystr

type_synonym service_record = "pystr \<times> int \<times> pystr"

text \<open>Line 41: \<^verbatim>\<open>match = f'{id}.local.'.lower() if id else None\<close>.\<close>

definition match_of :: "(pystr \<Rightarrow> pystr) \<Rightarrow> pystr option \<Rightarrow> pystr option" where
  "match_of lw ident =
     (case ident of
        None \<Rightarrow> None
      | Some s \<Rightarrow> if s = [] then None else Some (lw (s @ py ''.local.'')))"

text \<open>Line 49: \<^verbatim>\<open>serial = info.server[:-len('.local.')]\<close>.\<close>

definition serial_of :: "service_info \<Rightarrow> pystr" where
  "serial_of info = take (length (server info) - length (py ''.local.'')) (server info)"

datatype step = Continue | Yield service_record | Raise error

text \<open>
  Lines 44 to 55, one turn of the \<^verbatim>\<open>while True\<close> loop on the dequeued item. Reading
  \<^verbatim>\<open>info.address\<close> of \<^verbatim>\<open>None\<close> raises \<^verbatim>\<open>AttributeError\<close>; \<^verbatim>\<open>inet_ntoa(None)\<close>
  raises \<^verbatim>\<open>TypeError\<close>. The two log calls have no effect on the control flow and are
  left out.
\<close>

definition discover_step ::
  "(pystr \<Rightarrow> pystr) \<Rightarrow> pystr option \<Rightarrow> service_info option \<Rightarrow> step" where
  "discover_step lw m item =
     (case item of
        None \<Rightarrow> Raise AttributeError
      | Some info \<Rightarrow>
          (case address info of
             None \<Rightarrow> Raise TypeError
           | Some b \<Rightarrow>
               (case inet_ntoa b of
                  Inl e \<Rightarrow> Raise e
                | Inr addr \<Rightarrow>
                    if addr = py ''0.0.0.0'' then Continue
                    else if m = None \<or> Some (lw (server info)) = m
                    then Yield (addr, port info, serial_of info)
                    else Continue)))"

subsection \<open>The generator \<^verbatim>\<open>_discover\<close>\<close>

text \<open>
  The environment of one call is the list of items that the resolution tasks put on the
  queue, in queue order, each with its arrival time. A deadline (the timer of the
  enclosing \<^verbatim>\<open>timeout\<close> context) cancels the wait in \<^verbatim>\<open>queue.get()\<close> for an item that
  arrives at the deadline or after it (at a tie the cancellation wins); items on the
  queue are handled without suspension. With no deadline and nothing left to arrive, the
  generator stays suspended in \<^verbatim>\<open>queue.get()\<close>.
  \<^verbatim>\<open>conf.close()\<close> is taken to succeed.
\<close>

datatype frame = Created | AtGet | AtYield | Finished

record 't session =
  ident :: "pystr option"
  single :: bool
  frame :: frame
  queue :: "('t \<times> service_info option) list"
  subscribed :: bool
  closed :: bool

datatype signal = Item service_record | StopAsyncIteration | Exc error | Pending

definition expired :: "('t::linorder) option \<Rightarrow> 't \<Rightarrow> bool" where
  "expired dl t = (case dl of None \<Rightarrow> False | Some T \<Rightarrow> T \<le> t)"

fun wait_loop ::
  "(pystr \<Rightarrow> pystr) \<Rightarrow> pystr option \<Rightarrow> ('t::linorder) option \<Rightarrow> ('t \<times> service_info option) list
     \<Rightarrow> signal \<times> ('t \<times> service_info option) list" where
  "wait_loop lw m dl [] =
     (case dl of None \<Rightarrow> (Pending, []) | Some T \<Rightarrow> (Exc CancelledError, []))"
| "wait_loop lw m dl ((t, x) # q) =
     (if expired dl t then (Exc CancelledError, (t, x) # q)
      else (case discover_step lw m x of
              Continue \<Rightarrow> wait_loop lw m dl q
            | Raise e \<Rightarrow> (Exc e, q)
            | Yield r \<Rightarrow> (Item r, q)))"

text \<open>Line 57, the \<^verbatim>\<open>finally\<close> clause, and the end of the generator's frame.\<close>

definition conf_close :: "'t session \<Rightarrow> 't session" where
  "conf_close s = s\<lparr>frame := Finished, closed := True\<rparr>"

text \<open>
  \<^verbatim>\<open>try: ... finally: await conf.close()\<close>: the clause runs when the body leaves by a
  return or an exception, not when it suspends.
\<close>

definition try_finally :: "signal \<times> 't session \<Rightarrow> signal \<times> 't session" where
  "try_finally r =
     (case fst r of
        Item _ \<Rightarrow> r
      | Pending \<Rightarrow> r
      | _ \<Rightarrow> (fst r, conf_close (snd r)))"

definition loop :: "(pystr \<Rightarrow> pystr) \<Rightarrow> ('t::linorder) option \<Rightarrow> 't session \<Rightarrow> signal \<times> 't session" where
  "loop lw dl s =
     (case wait_loop lw (match_of lw (ident s)) dl (queue s) of
        (Item r, q) \<Rightarrow> (Item r, s\<lparr>frame := AtYield, queue := q\<rparr>)
      | (Pending, q) \<Rightarrow> (Pending, s\<lparr>frame := AtGet, queue := q\<rparr>)
      | (sig, q) \<Rightarrow> (sig, s\<lparr>queue := q\<rparr>))"

text \<open>
  \<^verbatim>\<open>_discover(id, dns_type, single)\<close> only creates the generator; \<open>net\<close> gives the items
  that the browser of a service type will deliver.
\<close>

definition discover ::
  "(pystr \<Rightarrow> ('t \<times> service_info option) list) \<Rightarrow> pystr option \<Rightarrow> pystr \<Rightarrow> bool
     \<Rightarrow> 't session" where
  "discover net i dns_type sgl =
     \<lparr>ident = i, single = sgl, frame = Created, queue = net dns_type,
      subscribed = False, closed = False\<rparr>"

text \<open>
  \<^verbatim>\<open>__anext__\<close>: run the generator to its next suspension or exit. From \<open>Created\<close> it
  enters the \<^verbatim>\<open>try\<close> and subscribes the browser (line 40); from \<open>AtYield\<close> it resumes
  after line 51 (\<^verbatim>\<open>if single: return\<close>); from \<open>AtGet\<close> the pending \<^verbatim>\<open>queue.get()\<close>
  goes on.
\<close>

definition anext :: "(pystr \<Rightarrow> pystr) \<Rightarrow> ('t::linorder) option \<Rightarrow> 't session \<Rightarrow> signal \<times> 't session" where
  "anext lw dl s =
     (case frame s of
        Finished \<Rightarrow> (StopAsyncIteration, s)
      | Created \<Rightarrow> try_finally (loop lw dl (s\<lparr>subscribed := True\<rparr>))
      | AtGet \<Rightarrow> try_finally (loop lw dl s)
      | AtYield \<Rightarrow>
          try_finally (if single s then (StopAsyncIteration, s) else loop lw dl s))"

text \<open>
  \<^verbatim>\<open>aclose()\<close>, what a consumer that abandons the sequence causes: \<^verbatim>\<open>GeneratorExit\<close>
  is raised at the \<^verbatim>\<open>yield\<close>, inside the \<^verbatim>\<open>try\<close>. A generator that never started just
  ends; one that is running is not affected.
\<close>

definition aclose :: "'t session \<Rightarrow> 't session" where
  "aclose s =
     (case frame s of
        AtYield \<Rightarrow> conf_close s
      | Created \<Rightarrow> s\<lparr>frame := Finished\<rparr>
      | _ \<Rightarrow> s)"

text \<open>
  Any consumer of the generator is a sequence of such calls: \<^verbatim>\<open>__anext__\<close> (under the
  deadline in force at that moment) and \<^verbatim>\<open>aclose\<close>. \<open>drive\<close> collects what the calls
  signal.
\<close>

datatype 't request = Next "'t option" | Close

fun drive :: "(pystr \<Rightarrow> pystr) \<Rightarrow> ('t::linorder) request list \<Rightarrow> 't session \<Rightarrow> signal list \<times> 't session" where
  "drive lw [] s = ([], s)"
| "drive lw (Next dl # ops) s =
     (let r = anext lw dl s; rs = drive lw ops (snd r) in (fst r # fst rs, snd rs))"
| "drive lw (Close # ops) s = drive lw ops (aclose s)"

subsection \<open>The wrappers \<^verbatim>\<open>discover_one\<close> and \<^verbatim>\<open>discover_all\<close>\<close>

text \<open>
  How a call ends: with a value, with an exception, or not at all (\<open>Blocked\<close>: the call
  is suspended and nothing is left that would wake it).
\<close>

datatype 'a outcome = Returned 'a | Raised error | Blocked

text \<open>
  The two loops below end because every record that the generator yields takes at least
  one item off the queue.
\<close>

lemma wait_loop_Item_shorter:
  "wait_loop lw m dl q = (Item r, q') \<Longrightarrow> length q' < length q"
proof (induction q)
  case Nil
  then show ?case by (simp split: option.splits)
next
  case (Cons a q)
  obtain t x where a: "a = (t, x)" by (cases a)
  from Cons show ?case
    by (auto simp: a split: if_splits step.splits)
qed

lemma try_finally_Item:
  "try_finally x = (Item r, s') \<Longrightarrow> x = (Item r, s')"
  by (cases x; cases "fst x") (auto simp: try_finally_def)

lemma loop_Item_shorter:
  assumes "loop lw dl s = (Item r, s')"
  shows "length (queue s') < length (queue s)"
proof -
  obtain sig q where w: "wait_loop lw (match_of lw (ident s)) dl (queue s) = (sig, q)"
    by (cases "wait_loop lw (match_of lw (ident s)) dl (queue s)")
  from assms w have "sig = Item r" and "queue s' = q"
    by (cases sig; auto simp: loop_def)+
  with w show ?thesis
    by (auto dest: wait_loop_Item_shorter)
qed

lemma anext_Item_shorter:
  assumes "anext lw dl s = (Item r, s')"
  shows "length (queue s') < length (queue s)"
proof (cases "frame s")
  case Created
  with assms have "loop lw dl (s\<lparr>subscribed := True\<rparr>) = (Item r, s')"
    by (simp add: anext_def try_finally_Item)
  from loop_Item_shorter [OF this] show ?thesis by simp
next
  case AtGet
  with assms have "loop lw dl s = (Item r, s')"
    by (simp add: anext_def try_finally_Item)
  then show ?thesis by (rule loop_Item_shorter)
next
  case AtYield
  show ?thesis
  proof (cases "single s")
    case True
    with assms AtYield show ?thesis
      by (simp add: anext_def try_finally_def)
  next
    case False
    with assms AtYield have "loop lw dl s = (Item r, s')"
      by (simp add: anext_def try_finally_Item)
    then show ?thesis by (rule loop_Item_shorter)
  qed
next
  case Finished
  with assms show ?thesis by (simp add: anext_def)
qed

text \<open>
  Lines 69 to 71: \<^verbatim>\<open>async for res in _discover(id, dns_type, True): retv = res\<close>, then
  \<^verbatim>\<open>return retv\<close>, which raises \<^verbatim>\<open>UnboundLocalError\<close> when nothing was assigned.
\<close>

function drain_one ::
  "(pystr \<Rightarrow> pystr) \<Rightarrow> ('t::linorder) option \<Rightarrow> service_record option \<Rightarrow> 't session
     \<Rightarrow> service_record outcome \<times> 't session" where
  "drain_one lw dl retv s =
     (let r = anext lw dl s in
      case fst r of
        Item res \<Rightarrow> drain_one lw dl (Some res) (snd r)
      | StopAsyncIteration \<Rightarrow>
          (case retv of
             Some v \<Rightarrow> (Returned v, snd r)
           | None \<Rightarrow> (Raised UnboundLocalError, snd r))
      | Exc e \<Rightarrow> (Raised e, snd r)
      | Pending \<Rightarrow> (Blocked, snd r))"
  by pat_completeness auto
termination
proof (relation "measure (\<lambda>(lw, dl, retv, s). length (queue s))")
  show "wf (measure (\<lambda>(lw, dl, retv, s). length (queue s)))" by simp
next
  fix lw :: "pystr \<Rightarrow> pystr" and dl :: "('t::linorder) option" and retv :: "service_record option" and s :: "'t session"
    and r res
  assume "r = anext lw dl s" and "fst r = Item res"
  then have "anext lw dl s = (Item res, snd r)"
    by (metis prod.collapse)
  then show "((lw, dl, Some res, snd r), (lw, dl, retv, s))
      \<in> measure (\<lambda>(lw, dl, retv, s). length (queue s))"
    by (simp add: anext_Item_shorter)
qed

declare drain_one.simps [simp del]

text \<open>
  \<^verbatim>\<open>async with timeout(timeout_v)\<close>: the timer is armed unless \<^verbatim>\<open>timeout_v\<close> is
  \<^verbatim>\<open>None\<close>, and the cancellation it caused leaves the context as \<^verbatim>\<open>TimeoutError\<close>.
\<close>

definition timeout_exit :: "'a outcome \<Rightarrow> 'a outcome" where
  "timeout_exit r = (case r of Raised CancelledError \<Rightarrow> Raised TimeoutError | _ \<Rightarrow> r)"

definition discover_one ::
  "(pystr \<Rightarrow> pystr) \<Rightarrow> (pystr \<Rightarrow> (('t::linorder) \<times> service_info option) list) \<Rightarrow> pystr option \<Rightarrow> pystr
     \<Rightarrow> 't option \<Rightarrow> service_record outcome \<times> 't session" where
  "discover_one lw net i dns_type timeout_v =
     (let r = drain_one lw timeout_v None (discover net i dns_type True)
      in (timeout_exit (fst r), snd r))"

text \<open>
  Lines 61 to 64, for a consumer that takes every record (as \<^verbatim>\<open>post_discover_all\<close> and
  \<^verbatim>\<open>print_wifi\<close> do): the records yielded, how the sequence ended, and the session.
\<close>

function drain_all ::
  "(pystr \<Rightarrow> pystr) \<Rightarrow> ('t::linorder) option \<Rightarrow> service_record list \<Rightarrow> 't session
     \<Rightarrow> (service_record list \<times> unit outcome) \<times> 't session" where
  "drain_all lw dl acc s =
     (let r = anext lw dl s in
      case fst r of
        Item res \<Rightarrow> drain_all lw dl (acc @ [res]) (snd r)
      | StopAsyncIteration \<Rightarrow> ((acc, Returned ()), snd r)
      | Exc e \<Rightarrow> ((acc, Raised e), snd r)
      | Pending \<Rightarrow> ((acc, Blocked), snd r))"
  by pat_completeness auto
termination
proof (relation "measure (\<lambda>(lw, dl, acc, s). length (queue s))")
  show "wf (measure (\<lambda>(lw, dl, acc, s). length (queue s)))" by simp
next
  fix lw :: "pystr \<Rightarrow> pystr" and dl :: "('t::linorder) option" and acc :: "service_record list" and s :: "'t session"
    and r res
  assume "r = anext lw dl s" and "fst r = Item res"
  then have "anext lw dl s = (Item res, snd r)"
    by (metis prod.collapse)
  then show "((lw, dl, acc @ [res], snd r), (lw, dl, acc, s))
      \<in> measure (\<lambda>(lw, dl, acc, s). length (queue s))"
    by (simp add: anext_Item_shorter)
qed

declare drain_all.simps [simp del]

text \<open>\<^verbatim>\<open>with suppress(asyncio.TimeoutError)\<close>: that exception ends the block normally.\<close>

definition suppress :: "unit outcome \<Rightarrow> unit outcome" where
  "suppress r = (case r of Raised TimeoutError \<Rightarrow> Returned () | _ \<Rightarrow> r)"

definition discover_all ::
  "(pystr \<Rightarrow> pystr) \<Rightarrow> (pystr \<Rightarrow> (('t::linorder) \<times> service_info option) list) \<Rightarrow> pystr option \<Rightarrow> pystr
     \<Rightarrow> 't option \<Rightarrow> (service_record list \<times> unit outcome) \<times> 't session" where
  "discover_all lw net i dns_type timeout_v =
     (let r = drain_all lw timeout_v [] (discover net i dns_type False)
      in ((fst (fst r), suppress (timeout_exit (snd (fst r)))), snd r))"

subsection \<open>Notions used to state the properties\<close>

text \<open>
  The items that reach the queue before the deadline (the loop handles exactly these,
  unless it leaves earlier), the items left when the deadline cancels the wait, and the
  records that the loop body yields on a list of items.
\<close>

definition arrived ::
  "('t::linorder) option \<Rightarrow> ('t \<times> service_info option) list \<Rightarrow> ('t \<times> service_info option) list" where
  "arrived dl q = takeWhile (\<lambda>(t, x). \<not> expired dl t) q"

definition pending_rest ::
  "('t::linorder) option \<Rightarrow> ('t \<times> service_info option) list \<Rightarrow> ('t \<times> service_info option) list" where
  "pending_rest dl q = dropWhile (\<lambda>(t, x). \<not> expired dl t) q"

definition yields_of :: "(pystr \<Rightarrow> pystr) \<Rightarrow> pystr option \<Rightarrow> service_info option list \<Rightarrow> service_record list" where
  "yields_of lw m xs = concat (map (\<lambda>x. case discover_step lw m x of Yield r \<Rightarrow> [r] | _ \<Rightarrow> []) xs)"

text \<open>
  Whether a turn of the loop raised, and the scope of the subscription: it is open exactly
  while the generator is suspended inside the \<^verbatim>\<open>try\<close>, and a generator that has finished
  has closed it if it ever subscribed.
\<close>

definition raises :: "step \<Rightarrow> bool" where
  "raises st = (case st of Raise e \<Rightarrow> True | _ \<Rightarrow> False)"

definition scoped :: "'t session \<Rightarrow> bool" where
  "scoped s =
     (case frame s of
        Created \<Rightarrow> \<not> subscribed s \<and> \<not> closed s
      | Finished \<Rightarrow> closed s = subscribed s
      | _ \<Rightarrow> subscribed s \<and> \<not> closed s)"

subsection \<open>Example data\<close>

definition spark :: service_info where
  "spark = \<lparr>address = Some [192, 168, 1, 20], port = 8332, server = (py ''abc123.local.''),
     name = (py ''abc123._brewblox._tcp.local.'')\<rparr>"

definition other :: service_info where
  "other = \<lparr>address = Some [192, 168, 1, 30], port = 8332, server = (py ''XYZ789.local.''),
     name = (py ''xyz789._brewblox._tcp.local.'')\<rparr>"

definition simulator :: service_info where
  "simulator = \<lparr>address = Some [0, 0, 0, 0], port = 8332, server = (py ''abc123.local.''),
     name = (py ''abc123._brewblox._tcp.local.'')\<rparr>"

definition roaming :: service_info where
  "roaming = \<lparr>address = Some [192, 168, 1, 21], port = 8332, server = (py ''spark01.home.''),
     name = (py ''spark01._brewblox._tcp.local.'')\<rparr>"

section \<open>Properties of the model\<close>

subsection \<open>Strings and the loop body\<close>

lemma length_py [simp]: "length (py s) = length s"
  by (simp add: py_def)

lemma ascii_lower_append: "ascii_lower (a @ b) = ascii_lower a @ ascii_lower b"
  by (simp add: ascii_lower_def)

lemma length_ascii_lower: "length (ascii_lower s) = length s"
  by (simp add: ascii_lower_def)

lemma ascii_lower_take: "ascii_lower (take n s) = take n (ascii_lower s)"
  by (simp add: ascii_lower_def take_map)

lemma ascii_lower_local: "ascii_lower (py ''.local.'') = py ''.local.''"
  by (simp add: ascii_lower_def ascii_lower_char_def py_def)

lemma is_ascii_append: "is_ascii (a @ b) \<longleftrightarrow> is_ascii a \<and> is_ascii b"
  by (simp add: is_ascii_def)

lemma is_ascii_take: "is_ascii s \<Longrightarrow> is_ascii (take n s)"
  by (auto simp: is_ascii_def list_all_iff dest: in_set_takeD)

lemma is_ascii_local: "is_ascii (py ''.local.'')"
  by (simp add: is_ascii_def py_def)

lemma match_of_None: "match_of lw None = None"
  by (simp add: match_of_def)

lemma match_of_empty: "match_of lw (Some []) = None"
  by (simp add: match_of_def)

lemma match_of_Some: "s \<noteq> [] \<Longrightarrow> match_of lw (Some s) = Some (lw (s @ py ''.local.''))"
  by (simp add: match_of_def)

lemma serial_of_lower:
  "ascii_lower (server info) = p @ py ''.local.'' \<Longrightarrow> ascii_lower (serial_of info) = p"
proof -
  assume a: "ascii_lower (server info) = p @ py ''.local.''"
  have "length (server info) = length p + 7"
    using arg_cong [OF a, of length] by (simp add: length_ascii_lower)
  then show ?thesis
    by (simp add: serial_of_def ascii_lower_take a)
qed

lemma serial_of_suffix: "server info = n @ py ''.local.'' \<Longrightarrow> serial_of info = n"
  by (simp add: serial_of_def)

lemma step_Yield_iff:
  "discover_step lw m item = Yield r \<longleftrightarrow>
     (\<exists>info b. item = Some info \<and> address info = Some b \<and> inet_ntoa b = Inr (fst r)
        \<and> fst r \<noteq> (py ''0.0.0.0'') \<and> (m = None \<or> m = Some (lw (server info)))
        \<and> r = (fst r, port info, serial_of info))"
  by (cases r) (auto simp: discover_step_def split: option.splits sum.splits)

lemma wait_loop_skip:
  "\<forall>(t, x) \<in> set pre. \<not> expired dl t \<and> discover_step lw m x = Continue
     \<Longrightarrow> wait_loop lw m dl (pre @ q) = wait_loop lw m dl q"
  by (induction pre) auto

lemma wait_loop_Item_split:
  "wait_loop lw m dl q = (Item r, q') \<Longrightarrow>
     \<exists>pre t x. q = pre @ (t, x) # q' \<and> \<not> expired dl t \<and> discover_step lw m x = Yield r
        \<and> (\<forall>(t', x') \<in> set pre. \<not> expired dl t' \<and> discover_step lw m x' = Continue)"
proof (induction q)
  case Nil
  then show ?case by (simp split: option.splits)
next
  case (Cons a q)
  obtain t x where a: "a = (t, x)" by (cases a)
  show ?case
  proof (cases "discover_step lw m x")
    case Continue
    with Cons.prems a have ne: "\<not> expired dl t" and w: "wait_loop lw m dl q = (Item r, q')"
      by (auto split: if_splits)
    from Cons.IH [OF w] obtain pre t1 x1 where
      "q = pre @ (t1, x1) # q'" "\<not> expired dl t1" "discover_step lw m x1 = Yield r"
      "\<forall>(t', x') \<in> set pre. \<not> expired dl t' \<and> discover_step lw m x' = Continue"
      by blast
    then have "a # q = (a # pre) @ (t1, x1) # q' \<and> \<not> expired dl t1 \<and> discover_step lw m x1 = Yield r
        \<and> (\<forall>(t', x') \<in> set (a # pre). \<not> expired dl t' \<and> discover_step lw m x' = Continue)"
      using a ne Continue by simp
    then show ?thesis by blast
  next
    case (Yield r')
    with Cons.prems a have "\<not> expired dl t" "r' = r" "q' = q"
      by (auto split: if_splits)
    with Yield a have "a # q = [] @ (t, x) # q' \<and> \<not> expired dl t \<and> discover_step lw m x = Yield r
        \<and> (\<forall>(t', x') \<in> set []. \<not> expired dl t' \<and> discover_step lw m x' = Continue)"
      by simp
    then show ?thesis by blast
  next
    case (Raise e)
    with Cons.prems a show ?thesis by (auto split: if_splits)
  qed
qed

lemma anext_fields:
  assumes "frame s \<noteq> Finished" and "frame s = AtYield \<longrightarrow> \<not> single s"
    and "wait_loop lw (match_of lw (ident s)) dl (queue s) = (sig, q)"
  shows "fst (anext lw dl s) = sig"
    and "queue (snd (anext lw dl s)) = q"
    and "ident (snd (anext lw dl s)) = ident s"
    and "single (snd (anext lw dl s)) = single s"
    and "frame (snd (anext lw dl s)) = (case sig of Item _ \<Rightarrow> AtYield | Pending \<Rightarrow> AtGet | _ \<Rightarrow> Finished)"
    and "closed (snd (anext lw dl s)) = (case sig of Item _ \<Rightarrow> closed s | Pending \<Rightarrow> closed s | _ \<Rightarrow> True)"
    and "subscribed (snd (anext lw dl s)) = (subscribed s \<or> frame s = Created)"
  using assms
  by (cases "frame s"; cases sig; simp add: anext_def loop_def try_finally_def conf_close_def)+

lemma wait_loop_not_Stop: "wait_loop lw m dl q \<noteq> (StopAsyncIteration, q')"
proof (induction q)
  case Nil
  then show ?case by (simp split: option.splits)
next
  case (Cons a q)
  then show ?case by (cases a) (auto split: step.splits)
qed

lemma wait_loop_Pending: "wait_loop lw m dl q = (Pending, q') \<Longrightarrow> dl = None \<and> q' = []"
proof (induction q)
  case Nil
  then show ?case by (simp split: option.splits)
next
  case (Cons a q)
  then show ?case by (cases a) (auto split: step.splits if_splits)
qed

lemma arrived_Nil [simp]: "arrived dl [] = []"
  by (simp add: arrived_def)

lemma arrived_Cons:
  "arrived dl ((t, x) # q) = (if expired dl t then [] else (t, x) # arrived dl q)"
  by (simp add: arrived_def)

lemma pending_rest_Nil [simp]: "pending_rest dl [] = []"
  by (simp add: pending_rest_def)

lemma pending_rest_Cons:
  "pending_rest dl ((t, x) # q) = (if expired dl t then (t, x) # q else pending_rest dl q)"
  by (simp add: pending_rest_def)

lemma wait_loop_all_skipped:
  "\<forall>(t, x) \<in> set (arrived dl q). discover_step lw m x = Continue \<Longrightarrow>
     wait_loop lw m dl q =
       (case dl of None \<Rightarrow> Pending | Some T \<Rightarrow> Exc CancelledError, pending_rest dl q)"
proof (induction q)
  case Nil
  then show ?case by (simp split: option.splits)
next
  case (Cons a q)
  obtain t x where a: "a = (t, x)" by (cases a)
  show ?case
  proof (cases "expired dl t")
    case True
    then have "dl \<noteq> None" by (auto simp: expired_def split: option.splits)
    with True a show ?thesis
      by (auto simp: pending_rest_Cons)
  next
    case False
    with Cons.prems a have c: "discover_step lw m x = Continue"
      and r: "\<forall>(t, x) \<in> set (arrived dl q). discover_step lw m x = Continue"
      by (simp_all add: arrived_Cons)
    from Cons.IH [OF r] a False c show ?thesis
      by (simp add: pending_rest_Cons)
  qed
qed

lemma wait_loop_first_Yield:
  assumes "\<forall>(t', x') \<in> set pre. \<not> expired dl t' \<and> discover_step lw m x' = Continue"
    and "\<not> expired dl t" and "discover_step lw m x = Yield r"
  shows "wait_loop lw m dl (pre @ (t, x) # q) = (Item r, q)"
  using assms by (simp add: wait_loop_skip)

lemma wait_loop_first_Raise:
  assumes "\<forall>(t', x') \<in> set pre. \<not> expired dl t' \<and> discover_step lw m x' = Continue"
    and "\<not> expired dl t" and "discover_step lw m x = Raise e"
  shows "wait_loop lw m dl (pre @ (t, x) # q) = (Exc e, q)"
  using assms by (simp add: wait_loop_skip)

lemma wait_loop_Exc_split:
  "wait_loop lw m dl q = (Exc e, q') \<Longrightarrow>
     (e = CancelledError \<and> (\<forall>(t, x) \<in> set (arrived dl q). discover_step lw m x = Continue))
     \<or> (\<exists>t x. (t, x) \<in> set (arrived dl q) \<and> discover_step lw m x = Raise e)"
proof (induction q)
  case Nil
  then show ?case by (simp split: option.splits)
next
  case (Cons a q)
  obtain t x where a: "a = (t, x)" by (cases a)
  show ?case
  proof (cases "expired dl t")
    case True
    with Cons.prems a have "e = CancelledError" by simp
    moreover from True a have "arrived dl (a # q) = []" by (simp add: arrived_Cons)
    ultimately show ?thesis by simp
  next
    case False
    show ?thesis
    proof (cases "discover_step lw m x")
      case Continue
      with Cons.prems a False have "wait_loop lw m dl q = (Exc e, q')" by simp
      from Cons.IH [OF this] show ?thesis
        using a False Continue by (auto simp: arrived_Cons)
    next
      case (Yield r)
      with Cons.prems a False show ?thesis by simp
    next
      case (Raise e')
      with Cons.prems a False have "e' = e" by simp
      with Raise a False show ?thesis by (auto simp: arrived_Cons)
    qed
  qed
qed

lemma arrived_split:
  assumes "\<forall>(t', x') \<in> set pre. \<not> expired dl t'" and "\<not> expired dl t"
  shows "arrived dl (pre @ (t, x) # q) = pre @ (t, x) # arrived dl q"
  using assms by (induction pre) (auto simp: arrived_def)

lemma yields_of_skipped:
  "\<forall>x \<in> set xs. discover_step lw m x = Continue \<Longrightarrow> yields_of lw m xs = []"
  by (induction xs) (auto simp: yields_of_def)

lemma yields_of_append: "yields_of lw m (xs @ ys) = yields_of lw m xs @ yields_of lw m ys"
  by (simp add: yields_of_def)

lemma yields_of_Cons_Yield:
  "discover_step lw m x = Yield r \<Longrightarrow> yields_of lw m (x # xs) = r # yields_of lw m xs"
  by (simp add: yields_of_def)

lemma anext_Item:
  assumes "anext lw dl s = (Item r, s')"
  shows "frame s \<noteq> Finished" and "frame s = AtYield \<longrightarrow> \<not> single s"
    and "wait_loop lw (match_of lw (ident s)) dl (queue s) = (Item r, queue s')"
    and "ident s' = ident s" and "single s' = single s" and "frame s' = AtYield"
    and "closed s' = closed s"
proof -
  show f: "frame s \<noteq> Finished"
    using assms by (auto simp: anext_def)
  show y: "frame s = AtYield \<longrightarrow> \<not> single s"
    using assms by (auto simp: anext_def try_finally_def conf_close_def)
  obtain sig q where w: "wait_loop lw (match_of lw (ident s)) dl (queue s) = (sig, q)"
    by (cases "wait_loop lw (match_of lw (ident s)) dl (queue s)")
  note af = anext_fields [OF f y w]
  from af(1) assms have sig: "sig = Item r" by simp
  from af(2) assms have "q = queue s'" by simp
  with w sig show "wait_loop lw (match_of lw (ident s)) dl (queue s) = (Item r, queue s')" by simp
  from af(3) assms show "ident s' = ident s" by simp
  from af(4) assms show "single s' = single s" by simp
  from af(5) assms sig show "frame s' = AtYield" by simp
  from af(6) assms sig show "closed s' = closed s" by simp
qed

subsection \<open>The generator under any consumer\<close>

lemma wait_loop_rest_subset: "wait_loop lw m dl q = (sig, q') \<Longrightarrow> set q' \<subseteq> set q"
proof (induction q)
  case Nil
  then show ?case by (simp split: option.splits)
next
  case (Cons a q)
  obtain t x where a: "a = (t, x)" by (cases a)
  from Cons show ?case
    by (auto simp: a split: if_splits step.splits)
qed

lemma anext_ident: "ident (snd (anext lw dl s)) = ident s"
proof (cases "frame s = Finished \<or> (frame s = AtYield \<and> single s)")
  case True
  then show ?thesis
    by (auto simp: anext_def try_finally_def conf_close_def)
next
  case False
  obtain sig q where "wait_loop lw (match_of lw (ident s)) dl (queue s) = (sig, q)"
    by (cases "wait_loop lw (match_of lw (ident s)) dl (queue s)")
  with False show ?thesis
    by (simp add: anext_fields(3))
qed

lemma anext_queue_subset: "set (queue (snd (anext lw dl s))) \<subseteq> set (queue s)"
proof (cases "frame s = Finished \<or> (frame s = AtYield \<and> single s)")
  case True
  then show ?thesis
    by (auto simp: anext_def try_finally_def conf_close_def)
next
  case False
  obtain sig q where w: "wait_loop lw (match_of lw (ident s)) dl (queue s) = (sig, q)"
    by (cases "wait_loop lw (match_of lw (ident s)) dl (queue s)")
  with False have "queue (snd (anext lw dl s)) = q"
    by (simp add: anext_fields(2))
  with wait_loop_rest_subset [OF w] show ?thesis by simp
qed

lemma aclose_ident: "ident (aclose s) = ident s"
  by (simp add: aclose_def conf_close_def split: frame.splits)

lemma aclose_queue: "queue (aclose s) = queue s"
  by (simp add: aclose_def conf_close_def split: frame.splits)

lemma anext_Item_source:
  assumes "fst (anext lw dl s) = Item r"
  shows "\<exists>t info. (t, Some info) \<in> set (queue s)
           \<and> discover_step lw (match_of lw (ident s)) (Some info) = Yield r"
proof -
  from assms have "anext lw dl s = (Item r, snd (anext lw dl s))"
    by (metis prod.collapse)
  from anext_Item(3) [OF this] wait_loop_Item_split
  obtain pre t x q' where q: "queue s = pre @ (t, x) # q'"
    and y: "discover_step lw (match_of lw (ident s)) x = Yield r"
    by blast
  from y obtain info where "x = Some info"
    by (auto simp: step_Yield_iff)
  with q y show ?thesis by auto
qed

lemma drive_Item_source:
  "Item r \<in> set (fst (drive lw ops s)) \<Longrightarrow>
     \<exists>t info. (t, Some info) \<in> set (queue s)
        \<and> discover_step lw (match_of lw (ident s)) (Some info) = Yield r"
proof (induction ops arbitrary: s)
  case Nil
  then show ?case by simp
next
  case (Cons a ops)
  show ?case
  proof (cases a)
    case (Next dl)
    with Cons.prems have "fst (anext lw dl s) = Item r
        \<or> Item r \<in> set (fst (drive lw ops (snd (anext lw dl s))))"
      by (auto simp: Let_def)
    then show ?thesis
    proof
      assume "fst (anext lw dl s) = Item r"
      then show ?thesis by (rule anext_Item_source)
    next
      assume "Item r \<in> set (fst (drive lw ops (snd (anext lw dl s))))"
      from Cons.IH [OF this] anext_queue_subset [of lw dl s] show ?thesis
        by (auto simp: anext_ident)
    qed
  next
    case Close
    with Cons.prems have "Item r \<in> set (fst (drive lw ops (aclose s)))" by simp
    from Cons.IH [OF this] show ?thesis
      by (simp add: aclose_ident aclose_queue)
  qed
qed


lemma anext_ident_irrelevant:
  assumes "match_of lw j = match_of lw (ident s)"
  shows "anext lw dl (s\<lparr>ident := j\<rparr>) = (fst (anext lw dl s), (snd (anext lw dl s))\<lparr>ident := j\<rparr>)"
proof -
  obtain sig q where w: "wait_loop lw (match_of lw (ident s)) dl (queue s) = (sig, q)"
    by (cases "wait_loop lw (match_of lw (ident s)) dl (queue s)")
  have l: "loop lw dl (s0\<lparr>ident := j\<rparr>) = (fst (loop lw dl s0), (snd (loop lw dl s0))\<lparr>ident := j\<rparr>)"
    if "ident s0 = ident s" and "queue s0 = queue s" for s0 :: "'a session"
    using that assms w by (cases sig) (simp_all add: loop_def)
  have t: "try_finally (sg, s0\<lparr>ident := j\<rparr>) = (sg, (snd (try_finally (sg, s0)))\<lparr>ident := j\<rparr>)"
    and t': "fst (try_finally (sg, s0)) = sg"
    for sg and s0 :: "'a session"
    by (cases sg; simp add: try_finally_def conf_close_def)+
  have tl: "try_finally (loop lw dl (s0\<lparr>ident := j\<rparr>))
      = (fst (try_finally (loop lw dl s0)), (snd (try_finally (loop lw dl s0)))\<lparr>ident := j\<rparr>)"
    if "ident s0 = ident s" and "queue s0 = queue s" for s0 :: "'a session"
    using l [OF that] t [of "fst (loop lw dl s0)" "snd (loop lw dl s0)"] t' [of "fst (loop lw dl s0)" "snd (loop lw dl s0)"]
    by simp
  show ?thesis
  proof (cases "frame s")
    case Created
    have e: "(s\<lparr>ident := j\<rparr>)\<lparr>subscribed := True\<rparr> = (s\<lparr>subscribed := True\<rparr>)\<lparr>ident := j\<rparr>"
      by simp
    have "anext lw dl (s\<lparr>ident := j\<rparr>)
        = try_finally (loop lw dl ((s\<lparr>ident := j\<rparr>)\<lparr>subscribed := True\<rparr>))"
      using Created by (simp add: anext_def)
    also have "\<dots> = try_finally (loop lw dl ((s\<lparr>subscribed := True\<rparr>)\<lparr>ident := j\<rparr>))"
      by (simp only: e)
    also have "\<dots> = (fst (try_finally (loop lw dl (s\<lparr>subscribed := True\<rparr>))),
        (snd (try_finally (loop lw dl (s\<lparr>subscribed := True\<rparr>))))\<lparr>ident := j\<rparr>)"
      by (rule tl) simp_all
    also have "\<dots> = (fst (anext lw dl s), (snd (anext lw dl s))\<lparr>ident := j\<rparr>)"
      using Created by (simp add: anext_def)
    finally show ?thesis .
  next
    case AtGet
    with tl [of s] show ?thesis by (simp add: anext_def)
  next
    case AtYield
    with tl [of s] t [of StopAsyncIteration s] t' [of StopAsyncIteration s] show ?thesis
      by (simp add: anext_def)
  next
    case Finished
    then show ?thesis by (simp add: anext_def)
  qed
qed

lemma aclose_ident_irrelevant: "aclose (s\<lparr>ident := j\<rparr>) = (aclose s)\<lparr>ident := j\<rparr>"
  by (simp add: aclose_def conf_close_def split: frame.splits)

lemma drive_ident_irrelevant:
  "match_of lw j = match_of lw (ident s) \<Longrightarrow>
     drive lw ops (s\<lparr>ident := j\<rparr>) = (fst (drive lw ops s), (snd (drive lw ops s))\<lparr>ident := j\<rparr>)"
proof (induction ops arbitrary: s)
  case Nil
  then show ?case by simp
next
  case (Cons a ops)
  show ?case
  proof (cases a)
    case (Next dl)
    from Cons.prems have "match_of lw j = match_of lw (ident (snd (anext lw dl s)))"
      by (simp add: anext_ident)
    from Cons.IH [OF this] Next Cons.prems show ?thesis
      by (simp add: anext_ident_irrelevant Let_def)
  next
    case Close
    from Cons.prems have "match_of lw j = match_of lw (ident (aclose s))"
      by (simp add: aclose_ident)
    from Cons.IH [OF this] Close show ?thesis
      by (simp add: aclose_ident_irrelevant)
  qed
qed

lemma drain_one_ident_irrelevant:
  "match_of lw j = match_of lw (ident s) \<Longrightarrow>
     drain_one lw dl retv (s\<lparr>ident := j\<rparr>)
       = (fst (drain_one lw dl retv s), (snd (drain_one lw dl retv s))\<lparr>ident := j\<rparr>)"
proof (induction lw dl retv s rule: drain_one.induct)
  case (1 lw dl retv s)
  note irr = anext_ident_irrelevant [OF "1.prems", where dl = dl]
  show ?case
  proof (cases "fst (anext lw dl s)")
    case (Item res)
    from "1.prems" have "match_of lw j = match_of lw (ident (snd (anext lw dl s)))"
      by (simp add: anext_ident)
    from "1.IH" [OF refl Item this] Item irr show ?thesis
      by (simp add: drain_one.simps [of lw dl retv s] drain_one.simps [of lw dl retv "s\<lparr>ident := j\<rparr>"])
  next
    case StopAsyncIteration
    with irr show ?thesis
      by (simp add: drain_one.simps [of lw dl retv s] drain_one.simps [of lw dl retv "s\<lparr>ident := j\<rparr>"]
          Let_def split: option.splits)
  next
    case (Exc e)
    with irr show ?thesis
      by (simp add: drain_one.simps [of lw dl retv s] drain_one.simps [of lw dl retv "s\<lparr>ident := j\<rparr>"])
  next
    case Pending
    with irr show ?thesis
      by (simp add: drain_one.simps [of lw dl retv s] drain_one.simps [of lw dl retv "s\<lparr>ident := j\<rparr>"])
  qed
qed

lemma drain_all_ident_irrelevant:
  "match_of lw j = match_of lw (ident s) \<Longrightarrow>
     drain_all lw dl acc (s\<lparr>ident := j\<rparr>)
       = (fst (drain_all lw dl acc s), (snd (drain_all lw dl acc s))\<lparr>ident := j\<rparr>)"
proof (induction lw dl acc s rule: drain_all.induct)
  case (1 lw dl acc s)
  note irr = anext_ident_irrelevant [OF "1.prems", where dl = dl]
  show ?case
  proof (cases "fst (anext lw dl s)")
    case (Item res)
    from "1.prems" have "match_of lw j = match_of lw (ident (snd (anext lw dl s)))"
      by (simp add: anext_ident)
    from "1.IH" [OF refl Item this] Item irr show ?thesis
      by (simp add: drain_all.simps [of lw dl acc s] drain_all.simps [of lw dl acc "s\<lparr>ident := j\<rparr>"])
  next
    case StopAsyncIteration
    with irr show ?thesis
      by (simp add: drain_all.simps [of lw dl acc s] drain_all.simps [of lw dl acc "s\<lparr>ident := j\<rparr>"])
  next
    case (Exc e)
    with irr show ?thesis
      by (simp add: drain_all.simps [of lw dl acc s] drain_all.simps [of lw dl acc "s\<lparr>ident := j\<rparr>"])
  next
    case Pending
    with irr show ?thesis
      by (simp add: drain_all.simps [of lw dl acc s] drain_all.simps [of lw dl acc "s\<lparr>ident := j\<rparr>"])
  qed
qed

lemma discover_empty_ident:
  "discover net (Some []) dns_type sgl = (discover net None dns_type sgl)\<lparr>ident := Some []\<rparr>"
  by (simp add: discover_def)

subsection \<open>The wrappers\<close>

lemma anext_single_resume:
  "frame s = AtYield \<Longrightarrow> single s \<Longrightarrow> anext lw dl s = (StopAsyncIteration, conf_close s)"
  by (simp add: anext_def try_finally_def)

lemma drain_one_single:
  assumes f: "frame s = Created \<or> frame s = AtGet" and sg: "single s"
    and w: "wait_loop lw (match_of lw (ident s)) dl (queue s) = (sig, q)"
  shows "fst (drain_one lw dl retv s)
           = (case sig of Item r \<Rightarrow> Returned r | Exc e \<Rightarrow> Raised e | Pending \<Rightarrow> Blocked
              | StopAsyncIteration \<Rightarrow> Blocked)"
    and "queue (snd (drain_one lw dl retv s)) = q"
    and "closed (snd (drain_one lw dl retv s)) = (case sig of Pending \<Rightarrow> closed s | _ \<Rightarrow> True)"
    and "frame (snd (drain_one lw dl retv s)) = (case sig of Pending \<Rightarrow> AtGet | _ \<Rightarrow> Finished)"
proof -
  from f have nf: "frame s \<noteq> Finished" and ny: "frame s = AtYield \<longrightarrow> \<not> single s"
    by auto
  note af = anext_fields [OF nf ny w]
  define s1 where "s1 = snd (anext lw dl s)"
  have all: "fst (drain_one lw dl retv s)
           = (case sig of Item r \<Rightarrow> Returned r | Exc e \<Rightarrow> Raised e | Pending \<Rightarrow> Blocked
              | StopAsyncIteration \<Rightarrow> Blocked)
     \<and> queue (snd (drain_one lw dl retv s)) = q
     \<and> closed (snd (drain_one lw dl retv s)) = (case sig of Pending \<Rightarrow> closed s | _ \<Rightarrow> True)
     \<and> frame (snd (drain_one lw dl retv s)) = (case sig of Pending \<Rightarrow> AtGet | _ \<Rightarrow> Finished)"
  proof (cases sig)
    case (Item r)
    with af sg have y: "frame s1 = AtYield" "single s1" "queue s1 = q"
      by (simp_all add: s1_def)
    from Item af(1) have "drain_one lw dl retv s = drain_one lw dl (Some r) s1"
      by (simp add: drain_one.simps [of lw dl retv s] s1_def)
    also have "\<dots> = (Returned r, conf_close s1)"
      using anext_single_resume [OF y(1,2), where dl = dl and lw = lw]
      by (simp add: drain_one.simps [of lw dl "Some r" s1])
    finally show ?thesis
      using Item y by (simp add: conf_close_def)
  next
    case StopAsyncIteration
    with w show ?thesis by (simp add: wait_loop_not_Stop)
  next
    case (Exc e)
    with af show ?thesis
      by (simp add: drain_one.simps [of lw dl retv s])
  next
    case Pending
    with af show ?thesis
      by (simp add: drain_one.simps [of lw dl retv s])
  qed
  from all show "fst (drain_one lw dl retv s)
           = (case sig of Item r \<Rightarrow> Returned r | Exc e \<Rightarrow> Raised e | Pending \<Rightarrow> Blocked
              | StopAsyncIteration \<Rightarrow> Blocked)" by simp
  from all show "queue (snd (drain_one lw dl retv s)) = q" by simp
  from all show "closed (snd (drain_one lw dl retv s)) = (case sig of Pending \<Rightarrow> closed s | _ \<Rightarrow> True)"
    by simp
  from all show "frame (snd (drain_one lw dl retv s)) = (case sig of Pending \<Rightarrow> AtGet | _ \<Rightarrow> Finished)"
    by simp
qed

lemma discover_fields [simp]:
  "ident (discover net i dns_type sgl) = i"
  "single (discover net i dns_type sgl) = sgl"
  "frame (discover net i dns_type sgl) = Created"
  "queue (discover net i dns_type sgl) = net dns_type"
  "subscribed (discover net i dns_type sgl) = False"
  "closed (discover net i dns_type sgl) = False"
  by (simp_all add: discover_def)

lemma discover_one_by_wait_loop:
  assumes "wait_loop lw (match_of lw i) timeout_v (net dns_type) = (sig, q)"
  shows "fst (discover_one lw net i dns_type timeout_v)
           = (case sig of Item r \<Rightarrow> Returned r | Exc e \<Rightarrow> timeout_exit (Raised e)
              | Pending \<Rightarrow> Blocked | StopAsyncIteration \<Rightarrow> Blocked)"
    and "queue (snd (discover_one lw net i dns_type timeout_v)) = q"
    and "closed (snd (discover_one lw net i dns_type timeout_v)) = (sig \<noteq> Pending)"
    and "frame (snd (discover_one lw net i dns_type timeout_v))
           = (if sig = Pending then AtGet else Finished)"
proof -
  let ?s = "discover net i dns_type True"
  have f: "frame ?s = Created \<or> frame ?s = AtGet" and sg: "single ?s" by simp_all
  have w: "wait_loop lw (match_of lw (ident ?s)) timeout_v (queue ?s) = (sig, q)"
    using assms by simp
  note d = drain_one_single [OF f sg w, of None]
  from d(1) show "fst (discover_one lw net i dns_type timeout_v)
           = (case sig of Item r \<Rightarrow> Returned r | Exc e \<Rightarrow> timeout_exit (Raised e)
              | Pending \<Rightarrow> Blocked | StopAsyncIteration \<Rightarrow> Blocked)"
    by (cases sig) (simp_all add: discover_one_def Let_def timeout_exit_def split: error.splits)
  from d(2) show "queue (snd (discover_one lw net i dns_type timeout_v)) = q"
    by (simp add: discover_one_def Let_def)
  from d(3) show "closed (snd (discover_one lw net i dns_type timeout_v)) = (sig \<noteq> Pending)"
    by (cases sig) (simp_all add: discover_one_def Let_def)
  from d(4) show "frame (snd (discover_one lw net i dns_type timeout_v))
           = (if sig = Pending then AtGet else Finished)"
    by (cases sig) (simp_all add: discover_one_def Let_def)
qed

lemma step_Continue_iff:
  "discover_step lw m item = Continue \<longleftrightarrow>
     (\<exists>info b addr. item = Some info \<and> address info = Some b \<and> inet_ntoa b = Inr addr
        \<and> (addr = (py ''0.0.0.0'') \<or> (m \<noteq> None \<and> m \<noteq> Some (lw (server info)))))"
  by (auto simp: discover_step_def split: option.splits sum.splits)

lemma step_failed_fetch: "discover_step lw m None = Raise AttributeError"
  by (simp add: discover_step_def)

lemma step_no_address:
  "address info = None \<Longrightarrow> discover_step lw m (Some info) = Raise TypeError"
  by (simp add: discover_step_def)

lemma step_bad_address:
  "address info = Some b \<Longrightarrow> length b \<noteq> 4 \<Longrightarrow> discover_step lw m (Some info) = Raise OSError"
  by (simp add: discover_step_def inet_ntoa_def)

lemma step_placeholder:
  "address info = Some b \<Longrightarrow> inet_ntoa b = Inr (py ''0.0.0.0'') \<Longrightarrow>
     discover_step lw m (Some info) = Continue"
  by (simp add: discover_step_def)

lemma inet_ntoa_zero: "inet_ntoa [0, 0, 0, 0] = Inr (py ''0.0.0.0'')"
  by code_simp

lemma drain_all_sources:
  "r \<in> set (fst (fst (drain_all lw dl acc s))) \<Longrightarrow>
     r \<in> set acc \<or> (\<exists>t info. (t, Some info) \<in> set (queue s)
        \<and> discover_step lw (match_of lw (ident s)) (Some info) = Yield r)"
proof (induction lw dl acc s rule: drain_all.induct)
  case (1 lw dl acc s)
  show ?case
  proof (cases "fst (anext lw dl s)")
    case (Item res)
    with "1.prems" have "r \<in> set (fst (fst (drain_all lw dl (acc @ [res]) (snd (anext lw dl s)))))"
      by (simp add: drain_all.simps [of lw dl acc s])
    from "1.IH" [OF refl Item this] have "r \<in> set acc \<or> r = res
        \<or> (\<exists>t info. (t, Some info) \<in> set (queue (snd (anext lw dl s)))
             \<and> discover_step lw (match_of lw (ident s)) (Some info) = Yield r)"
      by (auto simp: anext_ident)
    with anext_Item_source [OF Item] anext_queue_subset [of lw dl s] show ?thesis
      by blast
  next
    case StopAsyncIteration
    with "1.prems" show ?thesis by (simp add: drain_all.simps [of lw dl acc s])
  next
    case (Exc e)
    with "1.prems" show ?thesis by (simp add: drain_all.simps [of lw dl acc s])
  next
    case Pending
    with "1.prems" show ?thesis by (simp add: drain_all.simps [of lw dl acc s])
  qed
qed

lemma drain_one_sources:
  "fst (drain_one lw dl retv s) = Returned r \<Longrightarrow>
     retv = Some r \<or> (\<exists>t info. (t, Some info) \<in> set (queue s)
        \<and> discover_step lw (match_of lw (ident s)) (Some info) = Yield r)"
proof (induction lw dl retv s rule: drain_one.induct)
  case (1 lw dl retv s)
  show ?case
  proof (cases "fst (anext lw dl s)")
    case (Item res)
    with "1.prems" have "fst (drain_one lw dl (Some res) (snd (anext lw dl s))) = Returned r"
      by (simp add: drain_one.simps [of lw dl retv s])
    from "1.IH" [OF refl Item this] have "r = res
        \<or> (\<exists>t info. (t, Some info) \<in> set (queue (snd (anext lw dl s)))
             \<and> discover_step lw (match_of lw (ident s)) (Some info) = Yield r)"
      by (auto simp: anext_ident)
    with anext_Item_source [OF Item] anext_queue_subset [of lw dl s] show ?thesis
      by blast
  next
    case StopAsyncIteration
    with "1.prems" show ?thesis
      by (auto simp: drain_one.simps [of lw dl retv s] Let_def split: option.splits)
  next
    case (Exc e)
    with "1.prems" show ?thesis by (simp add: drain_one.simps [of lw dl retv s])
  next
    case Pending
    with "1.prems" show ?thesis by (simp add: drain_one.simps [of lw dl retv s])
  qed
qed

lemma timeout_exit_Returned: "timeout_exit x = Returned r \<longleftrightarrow> x = Returned r"
  by (cases x) (simp_all add: timeout_exit_def split: error.splits)

lemma step_Yield_address: "discover_step lw m item = Yield r \<Longrightarrow> fst r \<noteq> (py ''0.0.0.0'')"
  by (auto simp: step_Yield_iff)

lemma pending_rest_split:
  assumes "\<forall>(t', x') \<in> set pre. \<not> expired dl t'" and "\<not> expired dl t"
  shows "pending_rest dl (pre @ (t, x) # q) = pending_rest dl q"
  using assms by (induction pre) (auto simp: pending_rest_Cons)

lemma drain_all_deadline:
  assumes "\<not> single s" and "frame s \<noteq> Finished"
    and "\<forall>(t, x) \<in> set (arrived (Some T) (queue s)).
           \<not> raises (discover_step lw (match_of lw (ident s)) x)"
  shows "fst (drain_all lw (Some T) acc s)
           = (acc @ yields_of lw (match_of lw (ident s)) (map snd (arrived (Some T) (queue s))),
              Raised CancelledError)
         \<and> closed (snd (drain_all lw (Some T) acc s))
         \<and> frame (snd (drain_all lw (Some T) acc s)) = Finished
         \<and> queue (snd (drain_all lw (Some T) acc s)) = pending_rest (Some T) (queue s)"
  using assms
proof (induction "length (queue s)" arbitrary: s acc rule: less_induct)
  case less
  let ?m = "match_of lw (ident s)"
  obtain sig q where w: "wait_loop lw ?m (Some T) (queue s) = (sig, q)"
    by (cases "wait_loop lw ?m (Some T) (queue s)")
  from less.prems have ny: "frame s = AtYield \<longrightarrow> \<not> single s" by simp
  note af = anext_fields [OF less.prems(2) ny w]
  define s1 where "s1 = snd (anext lw (Some T) s)"
  show ?case
  proof (cases sig)
    case (Item res)
    from wait_loop_Item_split [OF w [unfolded Item]] obtain pre t x where
      qs: "queue s = pre @ (t, x) # q" and nt: "\<not> expired (Some T) t"
      and y: "discover_step lw ?m x = Yield res"
      and sk: "\<forall>(t', x') \<in> set pre. \<not> expired (Some T) t' \<and> discover_step lw ?m x' = Continue"
      by blast
    from sk have sk1: "\<forall>(t', x') \<in> set pre. \<not> expired (Some T) t'"
      and sk2: "\<forall>x' \<in> set (map snd pre). discover_step lw ?m x' = Continue"
      by auto
    have ar: "arrived (Some T) (queue s) = pre @ (t, x) # arrived (Some T) q"
      using qs arrived_split [OF sk1 nt] by simp
    have pr: "pending_rest (Some T) (queue s) = pending_rest (Some T) q"
      using qs pending_rest_split [OF sk1 nt] by simp
    have ys: "yields_of lw ?m (map snd (arrived (Some T) (queue s)))
        = res # yields_of lw ?m (map snd (arrived (Some T) q))"
      using yields_of_skipped [OF sk2] y
      by (simp add: ar yields_of_append yields_of_Cons_Yield)
    from af Item less.prems have s1: "queue s1 = q" "ident s1 = ident s" "\<not> single s1"
      "frame s1 \<noteq> Finished"
      by (simp_all add: s1_def)
    have len: "length (queue s1) < length (queue s)"
      using s1(1) qs by simp
    have nr: "\<forall>(t, x) \<in> set (arrived (Some T) (queue s1)).
           \<not> raises (discover_step lw (match_of lw (ident s1)) x)"
      using less.prems(3) s1(1,2) ar by auto
    from Item af(1) have "drain_all lw (Some T) acc s = drain_all lw (Some T) (acc @ [res]) s1"
      by (simp add: drain_all.simps [of lw "Some T" acc s] s1_def)
    with less.hyps [OF len s1(3,4) nr, of "acc @ [res]"] show ?thesis
      by (simp add: s1 ys pr)
  next
    case StopAsyncIteration
    with w show ?thesis by (simp add: wait_loop_not_Stop)
  next
    case (Exc e)
    from wait_loop_Exc_split [OF w [unfolded Exc]] less.prems(3)
    have c: "e = CancelledError"
      and sk: "\<forall>(t, x) \<in> set (arrived (Some T) (queue s)). discover_step lw ?m x = Continue"
      by (auto simp: raises_def)
    from sk have "\<forall>x \<in> set (map snd (arrived (Some T) (queue s))). discover_step lw ?m x = Continue"
      by auto
    then have ys: "yields_of lw ?m (map snd (arrived (Some T) (queue s))) = []"
      by (rule yields_of_skipped)
    from wait_loop_all_skipped [OF sk] w have q: "q = pending_rest (Some T) (queue s)"
      by simp
    from Exc af c show ?thesis
      by (simp add: drain_all.simps [of lw "Some T" acc s] ys q)
  next
    case Pending
    with w show ?thesis by (auto dest: wait_loop_Pending)
  qed
qed

lemma suppress_timeout_exit:
  "suppress (timeout_exit x) \<noteq> Raised TimeoutError"
  "suppress (timeout_exit x) \<noteq> Raised CancelledError"
  by (cases x; simp add: suppress_def timeout_exit_def split: error.splits)+

lemma scoped_discover: "scoped (discover net i dns_type sgl)"
  by (simp add: scoped_def)

lemma conf_close_fields [simp]:
  "closed (conf_close s)" "frame (conf_close s) = Finished"
  "subscribed (conf_close s) = subscribed s" "queue (conf_close s) = queue s"
  by (simp_all add: conf_close_def)

lemma anext_Finished: "frame s = Finished \<Longrightarrow> anext lw dl s = (StopAsyncIteration, s)"
  by (simp add: anext_def)

lemma anext_scoped: "scoped s \<Longrightarrow> scoped (snd (anext lw dl s))"
proof (cases "frame s = Finished \<or> (frame s = AtYield \<and> single s)")
  case True
  assume "scoped s"
  with True show ?thesis
    by (auto simp: anext_Finished anext_single_resume scoped_def)
next
  case False
  assume sc: "scoped s"
  obtain sig q where w: "wait_loop lw (match_of lw (ident s)) dl (queue s) = (sig, q)"
    by (cases "wait_loop lw (match_of lw (ident s)) dl (queue s)")
  from False have nf: "frame s \<noteq> Finished" and ny: "frame s = AtYield \<longrightarrow> \<not> single s"
    by auto
  note af = anext_fields [OF nf ny w]
  from sc nf show ?thesis
    by (cases sig; cases "frame s") (simp_all add: scoped_def af)
qed

lemma aclose_scoped: "scoped s \<Longrightarrow> scoped (aclose s)"
  by (cases "frame s") (simp_all add: scoped_def aclose_def)

lemma drive_scoped: "scoped s \<Longrightarrow> scoped (snd (drive lw ops s))"
proof (induction ops arbitrary: s)
  case Nil
  then show ?case by simp
next
  case (Cons a ops)
  then show ?case
    by (cases a) (simp_all add: Let_def anext_scoped aclose_scoped)
qed

lemma drive_Finished:
  "frame s = Finished \<Longrightarrow>
     snd (drive lw ops s) = s \<and> set (fst (drive lw ops s)) \<subseteq> {StopAsyncIteration}"
proof (induction ops)
  case Nil
  then show ?case by simp
next
  case (Cons a ops)
  then show ?case
    by (cases a) (simp_all add: Let_def anext_Finished aclose_def)
qed

lemma anext_exit:
  assumes "fst (anext lw dl s) = StopAsyncIteration \<or> fst (anext lw dl s) = Exc e"
  shows "frame (snd (anext lw dl s)) = Finished"
proof (cases "frame s = Finished \<or> (frame s = AtYield \<and> single s)")
  case True
  then show ?thesis
    by (auto simp: anext_Finished anext_single_resume)
next
  case False
  obtain sig q where w: "wait_loop lw (match_of lw (ident s)) dl (queue s) = (sig, q)"
    by (cases "wait_loop lw (match_of lw (ident s)) dl (queue s)")
  from False have nf: "frame s \<noteq> Finished" and ny: "frame s = AtYield \<longrightarrow> \<not> single s"
    by auto
  note af = anext_fields [OF nf ny w]
  from assms af(1) have "sig = StopAsyncIteration \<or> sig = Exc e" by simp
  with af(5) show ?thesis by auto
qed

lemma anext_started:
  assumes "scoped s" and "fst (anext lw dl s) \<noteq> StopAsyncIteration"
  shows "subscribed (snd (anext lw dl s))"
proof (cases "frame s = Finished \<or> (frame s = AtYield \<and> single s)")
  case True
  with assms(2) show ?thesis
    by (auto simp: anext_Finished anext_single_resume)
next
  case False
  obtain sig q where w: "wait_loop lw (match_of lw (ident s)) dl (queue s) = (sig, q)"
    by (cases "wait_loop lw (match_of lw (ident s)) dl (queue s)")
  from False have nf: "frame s \<noteq> Finished" and ny: "frame s = AtYield \<longrightarrow> \<not> single s"
    by auto
  note af = anext_fields [OF nf ny w]
  from assms(1) nf show ?thesis
    by (cases "frame s") (simp_all add: af(7) scoped_def)
qed

lemma anext_subscribed: "subscribed s \<Longrightarrow> subscribed (snd (anext lw dl s))"
proof (cases "frame s = Finished \<or> (frame s = AtYield \<and> single s)")
  case True
  assume "subscribed s"
  with True show ?thesis
    by (auto simp: anext_Finished anext_single_resume)
next
  case False
  assume sb: "subscribed s"
  obtain sig q where w: "wait_loop lw (match_of lw (ident s)) dl (queue s) = (sig, q)"
    by (cases "wait_loop lw (match_of lw (ident s)) dl (queue s)")
  from False have nf: "frame s \<noteq> Finished" and ny: "frame s = AtYield \<longrightarrow> \<not> single s"
    by auto
  from anext_fields(7) [OF nf ny w] sb show ?thesis by simp
qed

lemma aclose_subscribed: "subscribed (aclose s) = subscribed s"
  by (cases "frame s") (simp_all add: aclose_def)

lemma drive_subscribed: "subscribed s \<Longrightarrow> subscribed (snd (drive lw ops s))"
proof (induction ops arbitrary: s)
  case Nil
  then show ?case by simp
next
  case (Cons a ops)
  then show ?case
    by (cases a) (simp_all add: Let_def anext_subscribed aclose_subscribed)
qed

lemma drive_exit:
  "StopAsyncIteration \<in> set (fst (drive lw ops s)) \<or> Exc e \<in> set (fst (drive lw ops s))
     \<Longrightarrow> frame (snd (drive lw ops s)) = Finished"
proof (induction ops arbitrary: s)
  case Nil
  then show ?case by simp
next
  case (Cons a ops)
  show ?case
  proof (cases a)
    case (Next dl)
    show ?thesis
    proof (cases "fst (anext lw dl s) = StopAsyncIteration \<or> fst (anext lw dl s) = Exc e")
      case True
      from anext_exit [OF this] have "frame (snd (anext lw dl s)) = Finished" .
      from drive_Finished [OF this, where ops = ops and lw = lw] this Next show ?thesis
        by (simp add: Let_def)
    next
      case False
      with Cons.prems Next have "StopAsyncIteration \<in> set (fst (drive lw ops (snd (anext lw dl s))))
          \<or> Exc e \<in> set (fst (drive lw ops (snd (anext lw dl s))))"
        by (auto simp: Let_def)
      from Cons.IH [OF this] Next show ?thesis by (simp add: Let_def)
    qed
  next
    case Close
    with Cons show ?thesis by simp
  qed
qed

lemma drive_started:
  "scoped s \<Longrightarrow> x \<in> set (fst (drive lw ops s)) \<Longrightarrow> x \<noteq> StopAsyncIteration
     \<Longrightarrow> subscribed (snd (drive lw ops s))"
proof (induction ops arbitrary: s)
  case Nil
  then show ?case by simp
next
  case (Cons a ops)
  show ?case
  proof (cases a)
    case (Next dl)
    show ?thesis
    proof (cases "x = fst (anext lw dl s)")
      case True
      with Cons.prems have "subscribed (snd (anext lw dl s))"
        by (simp add: anext_started)
      from drive_subscribed [OF this, where ops = ops and lw = lw] Next show ?thesis by (simp add: Let_def)
    next
      case False
      with Cons.prems Next have "x \<in> set (fst (drive lw ops (snd (anext lw dl s))))"
        by (auto simp: Let_def)
      from Cons.IH [OF anext_scoped [OF Cons.prems(1)] this Cons.prems(3)] Next
      show ?thesis by (simp add: Let_def)
    qed
  next
    case Close
    with Cons.prems have "x \<in> set (fst (drive lw ops (aclose s)))" by simp
    from Cons.IH [OF aclose_scoped [OF Cons.prems(1)] this Cons.prems(3)] Close
    show ?thesis by simp
  qed
qed

subsection \<open>Runs in which no dequeued item raises\<close>

text \<open>
  \<^verbatim>\<open>discover_one\<close> with a timeout: when every item that reached the queue before the
  deadline is skipped, the call raises \<^verbatim>\<open>TimeoutError\<close> and the generator has finished
  with \<^verbatim>\<open>conf.close()\<close> run.
\<close>

lemma discover_one_timeout_after_skips:
  assumes "\<forall>(t, x) \<in> set (arrived (Some T) (net dns_type)).
             discover_step lw (match_of lw i) x = Continue"
  shows "fst (discover_one lw net i dns_type (Some T)) = Raised TimeoutError
         \<and> closed (snd (discover_one lw net i dns_type (Some T)))
         \<and> frame (snd (discover_one lw net i dns_type (Some T))) = Finished"
proof -
  from wait_loop_all_skipped [OF assms]
  have w: "wait_loop lw (match_of lw i) (Some T) (net dns_type)
      = (Exc CancelledError, pending_rest (Some T) (net dns_type))"
    by simp
  from discover_one_by_wait_loop [where net = net and dns_type = dns_type, OF w] show ?thesis
    by (simp add: timeout_exit_def)
qed

text \<open>
  \<^verbatim>\<open>discover_all\<close> never ends with \<^verbatim>\<open>TimeoutError\<close>. With a time bound, when no item
  that reached the queue before the deadline makes the loop body raise, the sequence is
  exactly the records of those items and it ends normally.
\<close>

lemma discover_all_timeout_without_raise:
  "snd (fst (discover_all lw net i dns_type timeout_v)) \<noteq> Raised TimeoutError
   \<and> snd (fst (discover_all lw net i dns_type timeout_v)) \<noteq> Raised CancelledError
   \<and> ((\<forall>(t, x) \<in> set (arrived (Some T) (net dns_type)).
          \<not> raises (discover_step lw (match_of lw i) x))
        \<longrightarrow> fst (discover_all lw net i dns_type (Some T))
              = (yields_of lw (match_of lw i) (map snd (arrived (Some T) (net dns_type))), Returned ())
            \<and> closed (snd (discover_all lw net i dns_type (Some T)))
            \<and> frame (snd (discover_all lw net i dns_type (Some T))) = Finished
            \<and> queue (snd (discover_all lw net i dns_type (Some T)))
                = pending_rest (Some T) (net dns_type))"
proof -
  let ?s = "discover net i dns_type False"
  have "fst (drain_all lw (Some T) [] ?s)
           = ([] @ yields_of lw (match_of lw (ident ?s)) (map snd (arrived (Some T) (queue ?s))),
              Raised CancelledError)
         \<and> closed (snd (drain_all lw (Some T) [] ?s))
         \<and> frame (snd (drain_all lw (Some T) [] ?s)) = Finished
         \<and> queue (snd (drain_all lw (Some T) [] ?s)) = pending_rest (Some T) (queue ?s)"
    if "\<forall>(t, x) \<in> set (arrived (Some T) (net dns_type)).
          \<not> raises (discover_step lw (match_of lw i) x)"
    by (rule drain_all_deadline) (use that in simp_all)
  then have b: "fst (discover_all lw net i dns_type (Some T))
              = (yields_of lw (match_of lw i) (map snd (arrived (Some T) (net dns_type))), Returned ())
            \<and> closed (snd (discover_all lw net i dns_type (Some T)))
            \<and> frame (snd (discover_all lw net i dns_type (Some T))) = Finished
            \<and> queue (snd (discover_all lw net i dns_type (Some T)))
                = pending_rest (Some T) (net dns_type)"
    if "\<forall>(t, x) \<in> set (arrived (Some T) (net dns_type)).
          \<not> raises (discover_step lw (match_of lw i) x)"
    using that by (simp add: discover_all_def Let_def suppress_def timeout_exit_def)
  have a: "snd (fst (discover_all lw net i dns_type timeout_v)) \<noteq> Raised TimeoutError"
    "snd (fst (discover_all lw net i dns_type timeout_v)) \<noteq> Raised CancelledError"
    by (simp_all add: discover_all_def Let_def suppress_timeout_exit)
  from a b show ?thesis by blast
qed

text \<open>
  \<^verbatim>\<open>discover_one\<close>: when a matching record is queued before the deadline behind items
  that are all skipped, the call returns that record, and the generator has finished with
  \<^verbatim>\<open>conf.close()\<close> run and nothing dequeued after the match.
\<close>

lemma discover_one_first_match_after_skips:
  assumes "net dns_type = pre @ (t, x) # rest"
    and "\<forall>(t', x') \<in> set pre. \<not> expired timeout_v t' \<and> discover_step lw (match_of lw i) x' = Continue"
    and "\<not> expired timeout_v t" and "discover_step lw (match_of lw i) x = Yield r"
  shows "fst (discover_one lw net i dns_type timeout_v) = Returned r
         \<and> closed (snd (discover_one lw net i dns_type timeout_v))
         \<and> frame (snd (discover_one lw net i dns_type timeout_v)) = Finished
         \<and> queue (snd (discover_one lw net i dns_type timeout_v)) = rest"
proof -
  from wait_loop_first_Yield [OF assms(2,3,4), of rest] assms(1)
  have w: "wait_loop lw (match_of lw i) timeout_v (net dns_type) = (Item r, rest)"
    by simp
  from discover_one_by_wait_loop [where net = net and dns_type = dns_type, OF w] show ?thesis by simp
qed

text \<open>
  \<^verbatim>\<open>discover_one\<close> without a timeout: when every queued item is skipped, the call stays
  suspended in \<^verbatim>\<open>queue.get()\<close>, with the subscription open.
\<close>

lemma discover_one_waits_after_skips:
  assumes "\<forall>(t, x) \<in> set (net dns_type). discover_step lw (match_of lw i) x = Continue"
  shows "fst (discover_one lw net i dns_type None) = Blocked
         \<and> \<not> closed (snd (discover_one lw net i dns_type None))
         \<and> frame (snd (discover_one lw net i dns_type None)) = AtGet
         \<and> queue (snd (discover_one lw net i dns_type None)) = []"
proof -
  have a: "arrived None q = q" for q :: "('a \<times> service_info option) list"
    by (induction q) (auto simp: arrived_Cons expired_def)
  have p: "pending_rest None q = []" for q :: "('a \<times> service_info option) list"
    by (induction q) (auto simp: pending_rest_Cons expired_def)
  from assms have "\<forall>(t, x) \<in> set (arrived None (net dns_type)).
      discover_step lw (match_of lw i) x = Continue"
    by (simp add: a)
  from wait_loop_all_skipped [OF this]
  have w: "wait_loop lw (match_of lw i) None (net dns_type) = (Pending, [])"
    by (simp add: p)
  from discover_one_by_wait_loop [where net = net and dns_type = dns_type, OF w] show ?thesis by simp
qed

section \<open>The claims\<close>

text \<open>
  C1, as amended. For a dequeued info with a four-byte address other than \<^verbatim>\<open>0.0.0.0\<close>:
  with an absent or empty filter identity the record is yielded; with a non-empty filter
  identity the record is yielded if and only if \<^verbatim>\<open>str.lower\<close> of its server name
  equals \<^verbatim>\<open>str.lower\<close> of the filter identity followed by \<^verbatim>\<open>.local.\<close> (the whole name,
  no prefix or substring), and is skipped otherwise; this holds whatever \<^verbatim>\<open>str.lower\<close>
  does. When the filter identity and the server name are ASCII, where \<^verbatim>\<open>str.lower\<close> is
  \<open>ascii_lower\<close>, a yielded record's identity is case-insensitively equal to the filter
  identity, and for a record whose server name ends case-insensitively in \<^verbatim>\<open>.local.\<close>,
  an identity case-insensitively equal to the filter identity conversely makes the
  record match.
\<close>

theorem identity_filter_matches_server_name:
  assumes "address info = Some b" and "inet_ntoa b = Inr addr" and "addr \<noteq> py ''0.0.0.0''"
  shows "(i = None \<or> i = Some [] \<longrightarrow>
            discover_step lw (match_of lw i) (Some info)
              = Yield (addr, port info, serial_of info))
       \<and> (\<forall>f. i = Some f \<and> f \<noteq> [] \<longrightarrow>
            discover_step lw (match_of lw i) (Some info)
              = (if lw (server info) = lw (f @ py ''.local.'')
                 then Yield (addr, port info, serial_of info) else Continue)
            \<and> ((\<forall>s. is_ascii s \<longrightarrow> lw s = ascii_lower s) \<and> is_ascii f
                  \<and> is_ascii (server info) \<longrightarrow>
                 (lw (server info) = lw (f @ py ''.local.'')
                    \<longrightarrow> lw (serial_of info) = lw f)
                 \<and> ((\<exists>n. lw (server info) = n @ py ''.local.'') \<and> lw (serial_of info) = lw f
                    \<longrightarrow> lw (server info) = lw (f @ py ''.local.''))))"
proof -
  have a: "discover_step lw (match_of lw i) (Some info)
      = Yield (addr, port info, serial_of info)"
    if "i = None \<or> i = Some []"
    using that assms by (auto simp: discover_step_def match_of_def)
  have b: "discover_step lw (match_of lw (Some f)) (Some info)
              = (if lw (server info) = lw (f @ py ''.local.'')
                 then Yield (addr, port info, serial_of info) else Continue)"
    if "f \<noteq> []" for f
    using that assms by (simp add: discover_step_def match_of_Some)
  have c: "(lw (server info) = lw (f @ py ''.local.'') \<longrightarrow> lw (serial_of info) = lw f)
      \<and> ((\<exists>n. lw (server info) = n @ py ''.local.'') \<and> lw (serial_of info) = lw f
            \<longrightarrow> lw (server info) = lw (f @ py ''.local.''))"
    if al: "\<forall>s. is_ascii s \<longrightarrow> lw s = ascii_lower s" and f: "is_ascii f"
      and sv: "is_ascii (server info)" for f
  proof -
    from al sv have 1: "lw (server info) = ascii_lower (server info)" by simp
    from al f have 2: "lw f = ascii_lower f" by simp
    from al f have 3: "lw (f @ py ''.local.'') = ascii_lower f @ py ''.local.''"
      by (simp add: is_ascii_append is_ascii_local ascii_lower_append ascii_lower_local)
    from sv have "is_ascii (serial_of info)"
      by (simp add: serial_of_def is_ascii_take)
    with al have 4: "lw (serial_of info) = ascii_lower (serial_of info)" by simp
    have x: "ascii_lower (serial_of info) = ascii_lower f"
      if "ascii_lower (server info) = ascii_lower f @ py ''.local.''"
      using that by (rule serial_of_lower)
    have y: "ascii_lower (server info) = ascii_lower f @ py ''.local.''"
      if "ascii_lower (server info) = n @ py ''.local.''"
        and "ascii_lower (serial_of info) = ascii_lower f" for n
      using that serial_of_lower [OF that(1)] by simp
    from x y show ?thesis
      unfolding 1 2 3 4 by blast
  qed
  from a b c show ?thesis by blast
qed

theorem identity_filter_matches_server_name_witness:
  "address spark = Some [192, 168, 1, 20]
   \<and> inet_ntoa [192, 168, 1, 20] = Inr (py ''192.168.1.20'')
   \<and> py ''192.168.1.20'' \<noteq> py ''0.0.0.0''
   \<and> is_ascii (py ''ABC123'') \<and> is_ascii (server spark)
   \<and> discover_step ascii_lower (match_of ascii_lower (Some (py ''ABC123''))) (Some spark)
       = Yield (py ''192.168.1.20'', 8332, py ''abc123'')
   \<and> ascii_lower (serial_of spark) = ascii_lower (py ''ABC123'')
   \<and> discover_step ascii_lower (match_of ascii_lower (Some (py ''abc12''))) (Some spark)
       = Continue"
proof -
  have h: "address spark = Some [192, 168, 1, 20]"
    "inet_ntoa [192, 168, 1, 20] = Inr (py ''192.168.1.20'')"
    "py ''192.168.1.20'' \<noteq> py ''0.0.0.0''"
    by code_simp+
  have e: "ascii_lower (server spark) = ascii_lower (py ''ABC123'' @ py ''.local.'')"
    "ascii_lower (server spark) \<noteq> ascii_lower (py ''abc12'' @ py ''.local.'')"
    "port spark = 8332" "serial_of spark = py ''abc123''"
    "is_ascii (py ''ABC123'')" "is_ascii (server spark)" "py ''ABC123'' \<noteq> []" "py ''abc12'' \<noteq> []"
    by code_simp+
  have al: "\<forall>s. is_ascii s \<longrightarrow> ascii_lower s = ascii_lower s" by simp
  from identity_filter_matches_server_name [OF h, of "Some (py ''ABC123'')" ascii_lower]
    identity_filter_matches_server_name [OF h, of "Some (py ''abc12'')" ascii_lower] h e al
  show ?thesis by simp
qed

text \<open>
  C1 as stated fails in three places (the names are ASCII, so \<^verbatim>\<open>str.lower\<close> is
  \<open>ascii_lower\<close> on them). The info \<open>roaming\<close> has the identity \<^verbatim>\<open>spark0\<close> (without a
  filter it is yielded under that identity), yet the filter identity \<^verbatim>\<open>spark0\<close> does
  not yield it, because its server name does not end in \<^verbatim>\<open>.local.\<close>. The empty string
  is a given identity, and it yields a record whose identity is not empty. Without a
  filter identity a dequeued info with the address \<^verbatim>\<open>0.0.0.0\<close> is not yielded.
\<close>

theorem identity_filter_counterexample:
  "discover_step ascii_lower (match_of ascii_lower (Some (py ''spark0''))) (Some roaming)
     = Continue
   \<and> discover_step ascii_lower (match_of ascii_lower None) (Some roaming)
     = Yield (py ''192.168.1.21'', 8332, py ''spark0'')
   \<and> ascii_lower (serial_of roaming) = ascii_lower (py ''spark0'')
   \<and> discover_step ascii_lower (match_of ascii_lower (Some [])) (Some spark)
     = Yield (py ''192.168.1.20'', 8332, py ''abc123'')
   \<and> ascii_lower (py ''abc123'') \<noteq> ascii_lower []
   \<and> discover_step ascii_lower (match_of ascii_lower None) (Some simulator) = Continue"
  by code_simp

text \<open>
  C2. No record with the address \<^verbatim>\<open>0.0.0.0\<close> is ever yielded: not by the generator
  under any consumer, not by \<^verbatim>\<open>discover_all\<close>, not by \<^verbatim>\<open>discover_one\<close>, whatever the
  queued items, the filter, the mode and the timeout. The loop body skips an info with
  that address under every filter, before the filter is looked at.
\<close>

theorem placeholder_address_never_yielded:
  "(Item r \<in> set (fst (drive lw ops (discover net i dns_type sgl))) \<longrightarrow> fst r \<noteq> py ''0.0.0.0'')
   \<and> (r \<in> set (fst (fst (discover_all lw net i dns_type timeout_v))) \<longrightarrow> fst r \<noteq> py ''0.0.0.0'')
   \<and> (fst (discover_one lw net i dns_type timeout_v) = Returned r \<longrightarrow> fst r \<noteq> py ''0.0.0.0'')
   \<and> (address info = Some b \<and> inet_ntoa b = Inr (py ''0.0.0.0'')
        \<longrightarrow> discover_step lw m (Some info) = Continue)"
proof -
  have a: "fst r \<noteq> py ''0.0.0.0''"
    if "Item r \<in> set (fst (drive lw ops (discover net i dns_type sgl)))"
    using drive_Item_source [OF that] by (auto dest: step_Yield_address)
  have b: "fst r \<noteq> py ''0.0.0.0''"
    if "r \<in> set (fst (fst (discover_all lw net i dns_type timeout_v)))"
  proof -
    from that have "r \<in> set (fst (fst (drain_all lw timeout_v [] (discover net i dns_type False))))"
      by (simp add: discover_all_def Let_def)
    from drain_all_sources [OF this] show ?thesis
      by (auto dest: step_Yield_address)
  qed
  have c: "fst r \<noteq> py ''0.0.0.0''"
    if "fst (discover_one lw net i dns_type timeout_v) = Returned r"
  proof -
    from that have "fst (drain_one lw timeout_v None (discover net i dns_type True)) = Returned r"
      by (simp add: discover_one_def Let_def timeout_exit_Returned)
    from drain_one_sources [OF this] show ?thesis
      by (auto dest: step_Yield_address)
  qed
  from a b c show ?thesis
    by (auto simp: step_placeholder)
qed

theorem placeholder_address_never_yielded_witness:
  "Item (py ''192.168.1.20'', 8332, py ''abc123'')
     \<in> set (fst (drive ascii_lower [Next None, Next None]
          (discover (\<lambda>_. [(1::nat, Some simulator), (2, Some spark)]) None BREWBLOX_DNS_TYPE False)))
   \<and> fst (py ''192.168.1.20'', 8332::int, py ''abc123'') \<noteq> py ''0.0.0.0''
   \<and> (py ''192.168.1.20'', 8332, py ''abc123'')
     \<in> set (fst (fst (discover_all ascii_lower (\<lambda>_. [(1::nat, Some simulator), (2, Some spark)]) None
          BREWBLOX_DNS_TYPE (Some 5))))
   \<and> fst (discover_one ascii_lower (\<lambda>_. [(1::nat, Some simulator), (2, Some spark)]) None
          BREWBLOX_DNS_TYPE (Some 5)) = Returned (py ''192.168.1.20'', 8332, py ''abc123'')
   \<and> address simulator = Some [0, 0, 0, 0] \<and> inet_ntoa [0, 0, 0, 0] = Inr (py ''0.0.0.0'')
   \<and> discover_step ascii_lower (Some (py ''abc123.local.'')) (Some simulator) = Continue"
proof -
  have h1: "Item (py ''192.168.1.20'', 8332, py ''abc123'')
     \<in> set (fst (drive ascii_lower [Next None, Next None]
          (discover (\<lambda>_. [(1::nat, Some simulator), (2, Some spark)]) None BREWBLOX_DNS_TYPE False)))"
    by code_simp
  have h2: "(py ''192.168.1.20'', 8332, py ''abc123'')
     \<in> set (fst (fst (discover_all ascii_lower (\<lambda>_. [(1::nat, Some simulator), (2, Some spark)]) None
          BREWBLOX_DNS_TYPE (Some 5))))"
    by code_simp
  have h3: "fst (discover_one ascii_lower (\<lambda>_. [(1::nat, Some simulator), (2, Some spark)]) None
          BREWBLOX_DNS_TYPE (Some 5)) = Returned (py ''192.168.1.20'', 8332, py ''abc123'')"
    by code_simp
  have h4: "address simulator = Some [0, 0, 0, 0]" "inet_ntoa [0, 0, 0, 0] = Inr (py ''0.0.0.0'')"
    by code_simp+
  from placeholder_address_never_yielded
    [of "(py ''192.168.1.20'', 8332, py ''abc123'')" ascii_lower "[Next None, Next None]"
        "\<lambda>_. [(1::nat, Some simulator), (2, Some spark)]" None BREWBLOX_DNS_TYPE False "Some 5"
        simulator "[0, 0, 0, 0]" "Some (py ''abc123.local.'')"]
    h1 h2 h3 h4
  show ?thesis by simp
qed

text \<open>
  C3. \<^verbatim>\<open>discover_one\<close> with a timeout of 5 and no matching instance at all: the only
  instance announced is one whose fetch fails, at time 1. No matching record ever reaches
  the queue, so the claim has the call raise \<^verbatim>\<open>TimeoutError\<close> at time 5. The loop
  dequeues the \<^verbatim>\<open>None\<close> and the call raises \<^verbatim>\<open>AttributeError\<close> instead; the same
  happens with a non-matching record queued ahead of the failed fetch. The generator has
  finished with \<^verbatim>\<open>conf.close()\<close> run.
\<close>

theorem timeout_call_ends_with_attribute_error:
  "discover_step ascii_lower (match_of ascii_lower (Some (py ''abc123''))) None
     = Raise AttributeError
   \<and> \<not> expired (Some 5) (1::nat)
   \<and> discover_one ascii_lower (\<lambda>_. [(1::nat, None)]) (Some (py ''abc123''))
        BREWBLOX_DNS_TYPE (Some 5)
     = (Raised AttributeError,
        \<lparr>ident = Some (py ''abc123''), single = True, frame = Finished, queue = [],
         subscribed = True, closed = True\<rparr>)
   \<and> discover_step ascii_lower (match_of ascii_lower (Some (py ''abc123''))) (Some other)
     = Continue
   \<and> fst (discover_one ascii_lower (\<lambda>_. [(1::nat, Some other), (2, None)])
        (Some (py ''abc123'')) BREWBLOX_DNS_TYPE (Some 5))
     = Raised AttributeError"
  by code_simp

text \<open>
  C4. \<^verbatim>\<open>discover_all\<close> with a time bound of 5: a device is resolved at time 1, the fetch
  of a second instance fails at time 2, a third device is resolved at time 3. The claim
  has the sequence end normally at the bound, after the records of both devices. The
  sequence ends at the \<^verbatim>\<open>None\<close>, with \<^verbatim>\<open>AttributeError\<close>, after the first record
  only; the third device is never looked at. An info whose packed address is not four
  bytes long ends the sequence with \<^verbatim>\<open>OSError\<close> in the same way.
\<close>

theorem bounded_sequence_ends_with_error:
  "\<not> expired (Some 5) (3::nat)
   \<and> discover_step ascii_lower (match_of ascii_lower None) (Some other)
     = Yield (py ''192.168.1.30'', 8332, py ''XYZ789'')
   \<and> discover_all ascii_lower (\<lambda>_. [(1::nat, Some spark), (2, None), (3, Some other)]) None
        BREWBLOX_DNS_TYPE (Some 5)
     = (([(py ''192.168.1.20'', 8332, py ''abc123'')], Raised AttributeError),
        \<lparr>ident = None, single = False, frame = Finished, queue = [(3, Some other)],
         subscribed = True, closed = True\<rparr>)
   \<and> fst (discover_all ascii_lower
        (\<lambda>_. [(1::nat, Some (spark\<lparr>address := Some [10, 0, 0, 0, 1]\<rparr>)), (2, Some other)]) None
        BREWBLOX_DNS_TYPE (Some 5))
     = ([], Raised OSError)"
  by code_simp

text \<open>
  C5. Take any consumer of a fresh generator, that is any sequence of \<^verbatim>\<open>__anext__\<close>
  calls (each under any deadline) and \<^verbatim>\<open>aclose\<close> calls, and the session it leaves.
  A generator that has subscribed and has finished has run \<^verbatim>\<open>conf.close()\<close>, and one
  that has not finished has not. Every signal that ends the sequence leaves the
  generator finished; after an exception (the cancellation by a timeout is one) and
  after the end of a sequence that yielded a record, \<^verbatim>\<open>conf.close()\<close> has run. From
  the suspension at the \<^verbatim>\<open>yield\<close>, abandoning the generator runs it, and in single
  mode so does the next \<^verbatim>\<open>__anext__\<close>, which ends the sequence. Once closed, the
  session does not change and signals nothing but the end of the sequence.
\<close>

theorem release_on_every_exit:
  assumes "drive lw ops (discover net i dns_type sgl) = (sigs, s)"
  shows "(frame s = Finished \<and> subscribed s \<longrightarrow> closed s)
       \<and> (frame s \<noteq> Finished \<longrightarrow> \<not> closed s)
       \<and> (StopAsyncIteration \<in> set sigs \<or> (\<exists>e. Exc e \<in> set sigs) \<longrightarrow> frame s = Finished)
       \<and> ((\<exists>e. Exc e \<in> set sigs) \<longrightarrow> closed s)
       \<and> ((\<exists>r. Item r \<in> set sigs) \<and> StopAsyncIteration \<in> set sigs \<longrightarrow> closed s)
       \<and> (frame s = AtYield \<longrightarrow> closed (aclose s) \<and> frame (aclose s) = Finished)
       \<and> (frame s = AtYield \<and> single s \<longrightarrow>
            (\<forall>dl. fst (anext lw dl s) = StopAsyncIteration \<and> closed (snd (anext lw dl s))))
       \<and> (closed s \<longrightarrow>
            (\<forall>more. snd (drive lw more s) = s \<and> set (fst (drive lw more s)) \<subseteq> {StopAsyncIteration}))"
proof -
  let ?s0 = "discover net i dns_type sgl"
  from assms have sg: "sigs = fst (drive lw ops ?s0)" and s: "s = snd (drive lw ops ?s0)"
    by simp_all
  have sc: "scoped s"
    unfolding s by (rule drive_scoped) (rule scoped_discover)
  have ex: "frame s = Finished"
    if "StopAsyncIteration \<in> set sigs \<or> Exc e \<in> set sigs" for e
    using that unfolding s sg by (rule drive_exit)
  have st: "subscribed s" if "x \<in> set sigs" "x \<noteq> StopAsyncIteration" for x
    using that unfolding s sg by (intro drive_started [OF scoped_discover])
  have 1: "frame s = Finished \<and> subscribed s \<longrightarrow> closed s"
    using sc by (auto simp: scoped_def)
  have 2: "frame s \<noteq> Finished \<longrightarrow> \<not> closed s"
    using sc by (cases "frame s") (auto simp: scoped_def)
  have 3: "StopAsyncIteration \<in> set sigs \<or> (\<exists>e. Exc e \<in> set sigs) \<longrightarrow> frame s = Finished"
    using ex by blast
  have 4: "(\<exists>e. Exc e \<in> set sigs) \<longrightarrow> closed s"
  proof
    assume "\<exists>e. Exc e \<in> set sigs"
    then obtain e where e: "Exc e \<in> set sigs" ..
    from ex [of e] e have "frame s = Finished" by simp
    moreover from st [OF e] have "subscribed s" by simp
    ultimately show "closed s" using 1 by simp
  qed
  have 5: "(\<exists>r. Item r \<in> set sigs) \<and> StopAsyncIteration \<in> set sigs \<longrightarrow> closed s"
  proof
    assume a: "(\<exists>r. Item r \<in> set sigs) \<and> StopAsyncIteration \<in> set sigs"
    then obtain r where r: "Item r \<in> set sigs" by blast
    from a ex have "frame s = Finished" by blast
    moreover from st [OF r] have "subscribed s" by simp
    ultimately show "closed s" using 1 by simp
  qed
  have 6: "frame s = AtYield \<longrightarrow> closed (aclose s) \<and> frame (aclose s) = Finished"
    by (simp add: aclose_def)
  have 7: "frame s = AtYield \<and> single s \<longrightarrow>
            (\<forall>dl. fst (anext lw dl s) = StopAsyncIteration \<and> closed (snd (anext lw dl s)))"
    by (simp add: anext_single_resume)
  have 8: "closed s \<longrightarrow>
            (\<forall>more. snd (drive lw more s) = s \<and> set (fst (drive lw more s)) \<subseteq> {StopAsyncIteration})"
  proof
    assume "closed s"
    with 2 have "frame s = Finished" by blast
    then show "\<forall>more. snd (drive lw more s) = s \<and> set (fst (drive lw more s)) \<subseteq> {StopAsyncIteration}"
      by (simp add: drive_Finished)
  qed
  from 1 2 3 4 5 6 7 8 show ?thesis by blast
qed

theorem release_on_every_exit_witness:
  "drive ascii_lower [Next None, Close] (discover (\<lambda>_. [(1::nat, Some spark), (2, Some other)]) None
       BREWBLOX_DNS_TYPE False)
     = ([Item (py ''192.168.1.20'', 8332, py ''abc123'')],
        \<lparr>ident = None, single = False, frame = Finished, queue = [(2, Some other)],
         subscribed = True, closed = True\<rparr>)
   \<and> drive ascii_lower [Next None, Next (Some 5)]
        \<lparr>ident = None, single = False, frame = Finished, queue = [(2::nat, Some other)],
         subscribed = True, closed = True\<rparr>
     = ([StopAsyncIteration, StopAsyncIteration],
        \<lparr>ident = None, single = False, frame = Finished, queue = [(2, Some other)],
         subscribed = True, closed = True\<rparr>)
   \<and> drive ascii_lower [Next None, Next None] (discover (\<lambda>_. [(1::nat, Some spark), (2, Some other)]) None
       BREWBLOX_DNS_TYPE True)
     = ([Item (py ''192.168.1.20'', 8332, py ''abc123''), StopAsyncIteration],
        \<lparr>ident = None, single = True, frame = Finished, queue = [(2, Some other)],
         subscribed = True, closed = True\<rparr>)
   \<and> drive ascii_lower [Next (Some 5)] (discover (\<lambda>_. [(7::nat, Some spark)]) None BREWBLOX_DNS_TYPE False)
     = ([Exc CancelledError],
        \<lparr>ident = None, single = False, frame = Finished, queue = [(7, Some spark)],
         subscribed = True, closed = True\<rparr>)
   \<and> drive ascii_lower [Next None] (discover (\<lambda>_. [(1::nat, None), (2, Some spark)]) None
       BREWBLOX_DNS_TYPE False)
     = ([Exc AttributeError],
        \<lparr>ident = None, single = False, frame = Finished, queue = [(2, Some spark)],
         subscribed = True, closed = True\<rparr>)"
proof -
  let ?s = "\<lparr>ident = None, single = False, frame = Finished, queue = [(2::nat, Some other)],
         subscribed = True, closed = True\<rparr>"
  have h: "drive ascii_lower [Next None, Close] (discover (\<lambda>_. [(1::nat, Some spark), (2, Some other)]) None
       BREWBLOX_DNS_TYPE False) = ([Item (py ''192.168.1.20'', 8332, py ''abc123'')], ?s)"
    by code_simp
  have e: "fst (drive ascii_lower [Next None, Next (Some 5)] ?s) = [StopAsyncIteration, StopAsyncIteration]"
    by code_simp
  from release_on_every_exit [OF h]
  have "\<forall>more. snd (drive ascii_lower more ?s) = ?s \<and> set (fst (drive ascii_lower more ?s)) \<subseteq> {StopAsyncIteration}"
    by (simp del: drive.simps)
  then have "snd (drive ascii_lower [Next None, Next (Some 5)] ?s) = ?s"
    by blast
  with e have a: "drive ascii_lower [Next None, Next (Some 5)] ?s
      = ([StopAsyncIteration, StopAsyncIteration], ?s)"
    by (simp add: prod_eq_iff del: drive.simps)
  have b: "drive ascii_lower [Next None, Next None] (discover (\<lambda>_. [(1::nat, Some spark), (2, Some other)]) None
       BREWBLOX_DNS_TYPE True)
     = ([Item (py ''192.168.1.20'', 8332, py ''abc123''), StopAsyncIteration],
        \<lparr>ident = None, single = True, frame = Finished, queue = [(2, Some other)],
         subscribed = True, closed = True\<rparr>)"
    by code_simp
  have c: "drive ascii_lower [Next (Some 5)] (discover (\<lambda>_. [(7::nat, Some spark)]) None BREWBLOX_DNS_TYPE False)
     = ([Exc CancelledError],
        \<lparr>ident = None, single = False, frame = Finished, queue = [(7, Some spark)],
         subscribed = True, closed = True\<rparr>)"
    by code_simp
  have d: "drive ascii_lower [Next None] (discover (\<lambda>_. [(1::nat, None), (2, Some spark)]) None
       BREWBLOX_DNS_TYPE False)
     = ([Exc AttributeError],
        \<lparr>ident = None, single = False, frame = Finished, queue = [(2, Some spark)],
         subscribed = True, closed = True\<rparr>)"
    by code_simp
  from h a b c d show ?thesis by (simp del: drive.simps)
qed

text \<open>
  C6. A failed fetch is not dropped: \<^verbatim>\<open>add_service\<close> queues the \<^verbatim>\<open>None\<close> it got, and
  the loop raises \<^verbatim>\<open>AttributeError\<close> on it, which ends the session and reaches the
  caller of either wrapper; a later matching record is never looked at, and
  \<^verbatim>\<open>discover_all\<close> ends with the error after the records it had yielded. An info
  without an address ends the session with \<^verbatim>\<open>TypeError\<close> in the same way.
\<close>

theorem failed_fetch_reaches_caller:
  "fst (discover_one ascii_lower (\<lambda>_. [(1::nat, None), (2, Some spark)]) None BREWBLOX_DNS_TYPE None)
     = Raised AttributeError
   \<and> fst (discover_all ascii_lower (\<lambda>_. [(1::nat, Some other), (2, None), (3, Some spark)]) None
        BREWBLOX_DNS_TYPE (Some 5))
     = ([(py ''192.168.1.30'', 8332, py ''XYZ789'')], Raised AttributeError)
   \<and> fst (discover_one ascii_lower (\<lambda>_. [(1::nat, Some (spark\<lparr>address := None\<rparr>))]) None BREWBLOX_DNS_TYPE
        (Some 5))
     = Raised TypeError"
  by code_simp

text \<open>
  C7. \<^verbatim>\<open>discover_one\<close> without a timeout: the fetch of one instance fails, and the
  matching device is resolved after it. A matching record reaches the queue and no time
  bound is set, so the claim has the call return that record. The loop dequeues the
  \<^verbatim>\<open>None\<close> first and the call raises \<^verbatim>\<open>AttributeError\<close>; the matching record stays on
  the queue.
\<close>

theorem match_behind_failed_fetch_is_lost:
  "discover_step ascii_lower (match_of ascii_lower (Some (py ''abc123''))) (Some spark)
     = Yield (py ''192.168.1.20'', 8332, py ''abc123'')
   \<and> discover_one ascii_lower (\<lambda>_. [(1::nat, None), (2, Some spark)]) (Some (py ''abc123''))
        BREWBLOX_DNS_TYPE None
     = (Raised AttributeError,
        \<lparr>ident = Some (py ''abc123''), single = True, frame = Finished,
         queue = [(2, Some spark)], subscribed = True, closed = True\<rparr>)"
  by code_simp

text \<open>
  C8. Every record that a session yields, under any consumer, comes from a queued info,
  with that info's address in dotted decimal, its port, and as identity its server name
  without the last seven characters; when the server name ends in \<^verbatim>\<open>.local.\<close> the
  identity is exactly the name with that suffix removed.
\<close>

theorem identity_strips_local_suffix:
  assumes "Item (addr, p, serial) \<in> set (fst (drive lw ops (discover net i dns_type sgl)))"
  shows "\<exists>t info b. (t, Some info) \<in> set (net dns_type) \<and> address info = Some b
           \<and> inet_ntoa b = Inr addr \<and> p = port info \<and> serial = serial_of info
           \<and> (\<forall>n. server info = n @ py ''.local.'' \<longrightarrow> serial = n)"
proof -
  from drive_Item_source [OF assms] obtain t info where
    m: "(t, Some info) \<in> set (net dns_type)" and
    y: "discover_step lw (match_of lw i) (Some info) = Yield (addr, p, serial)"
    by (auto simp: discover_def)
  from y obtain b where "address info = Some b" "inet_ntoa b = Inr addr"
    "p = port info" "serial = serial_of info"
    by (auto simp: step_Yield_iff)
  with m show ?thesis
    by (intro exI [of _ t] exI [of _ info] exI [of _ b]) (simp add: serial_of_suffix)
qed

theorem identity_strips_local_suffix_witness:
  "Item (py ''192.168.1.20'', 8332, py ''abc123'')
     \<in> set (fst (drive ascii_lower [Next None]
          (discover (\<lambda>_. [(1::nat, Some spark)]) None BREWBLOX_DNS_TYPE False)))
   \<and> (\<exists>t info b. (t, Some info) \<in> set [(1::nat, Some spark)] \<and> address info = Some b
         \<and> inet_ntoa b = Inr (py ''192.168.1.20'') \<and> 8332 = port info
         \<and> py ''abc123'' = serial_of info
         \<and> (\<forall>n. server info = n @ py ''.local.'' \<longrightarrow> py ''abc123'' = n))"
proof -
  have h: "Item (py ''192.168.1.20'', 8332, py ''abc123'')
     \<in> set (fst (drive ascii_lower [Next None]
          (discover (\<lambda>_. [(1::nat, Some spark)]) None BREWBLOX_DNS_TYPE False)))"
    by code_simp
  from identity_strips_local_suffix [OF h] h show ?thesis by simp
qed

text \<open>
  C9. \<^verbatim>\<open>discover_one\<close> without a timeout, on a sequence with no matching record: a
  non-matching device is resolved, then the fetch of another instance fails. The claim
  has the call wait for ever. The call raises \<^verbatim>\<open>AttributeError\<close> when the loop
  dequeues the \<^verbatim>\<open>None\<close>.
\<close>

theorem unbounded_wait_ends_with_attribute_error:
  "discover_step ascii_lower (match_of ascii_lower (Some (py ''abc123''))) (Some other)
     = Continue
   \<and> discover_step ascii_lower (match_of ascii_lower (Some (py ''abc123''))) None
     = Raise AttributeError
   \<and> discover_one ascii_lower (\<lambda>_. [(1::nat, Some other), (2, None)]) (Some (py ''abc123''))
        BREWBLOX_DNS_TYPE None
     = (Raised AttributeError,
        \<lparr>ident = Some (py ''abc123''), single = True, frame = Finished, queue = [],
         subscribed = True, closed = True\<rparr>)"
  by code_simp

text \<open>
  C10. An identity argument that is the empty string gives the same outcome, the same
  records and the same final session (up to the stored argument) as an absent identity,
  for both wrappers and for any consumer of the generator; the loop body treats every
  item as it does without a filter, so every info with a four-byte address other than
  \<^verbatim>\<open>0.0.0.0\<close> is yielded.
\<close>

theorem empty_identity_is_absent:
  "fst (discover_one lw net (Some []) dns_type timeout_v)
     = fst (discover_one lw net None dns_type timeout_v)
   \<and> snd (discover_one lw net (Some []) dns_type timeout_v)
       = (snd (discover_one lw net None dns_type timeout_v))\<lparr>ident := Some []\<rparr>
   \<and> fst (discover_all lw net (Some []) dns_type timeout_v)
       = fst (discover_all lw net None dns_type timeout_v)
   \<and> snd (discover_all lw net (Some []) dns_type timeout_v)
       = (snd (discover_all lw net None dns_type timeout_v))\<lparr>ident := Some []\<rparr>
   \<and> fst (drive lw ops (discover net (Some []) dns_type sgl))
       = fst (drive lw ops (discover net None dns_type sgl))
   \<and> discover_step lw (match_of lw (Some [])) item = discover_step lw None item
   \<and> (address info = Some b \<and> inet_ntoa b = Inr addr \<and> addr \<noteq> py ''0.0.0.0''
        \<longrightarrow> discover_step lw (match_of lw (Some [])) (Some info)
              = Yield (addr, port info, serial_of info))"
proof -
  have m: "match_of lw (Some []) = match_of lw (ident (discover net None dns_type sgl))" for sgl
    by (simp add: match_of_def discover_def)
  have "discover_step lw (match_of lw (Some [])) (Some info) = Yield (addr, port info, serial_of info)"
    if "address info = Some b" "inet_ntoa b = Inr addr" "addr \<noteq> py ''0.0.0.0''"
    using that by (simp add: discover_step_def match_of_empty)
  then show ?thesis
    by (simp add: discover_one_def discover_all_def discover_empty_ident
        drain_one_ident_irrelevant [OF m] drain_all_ident_irrelevant [OF m]
        drive_ident_irrelevant [OF m] match_of_empty Let_def)
qed

theorem empty_identity_is_absent_witness:
  "address other = Some [192, 168, 1, 30] \<and> inet_ntoa [192, 168, 1, 30] = Inr (py ''192.168.1.30'')
   \<and> py ''192.168.1.30'' \<noteq> py ''0.0.0.0''
   \<and> discover_step ascii_lower (match_of ascii_lower (Some [])) (Some other) = Yield (py ''192.168.1.30'', 8332, py ''XYZ789'')
   \<and> fst (discover_one ascii_lower (\<lambda>_. [(1::nat, Some other), (2, Some spark)]) (Some []) BREWBLOX_DNS_TYPE None)
       = Returned (py ''192.168.1.30'', 8332, py ''XYZ789'')"
proof -
  have h: "address other = Some [192, 168, 1, 30]
      \<and> inet_ntoa [192, 168, 1, 30] = Inr (py ''192.168.1.30'') \<and> py ''192.168.1.30'' \<noteq> py ''0.0.0.0''"
    by code_simp
  have p: "port other = 8332" and s: "serial_of other = py ''XYZ789''"
    by code_simp+
  have n: "fst (discover_one ascii_lower (\<lambda>_. [(1::nat, Some other), (2, Some spark)]) None BREWBLOX_DNS_TYPE None)
       = Returned (py ''192.168.1.30'', 8332, py ''XYZ789'')"
    by code_simp
  from empty_identity_is_absent
    [of ascii_lower "\<lambda>_. [(1::nat, Some other), (2, Some spark)]" BREWBLOX_DNS_TYPE None "[]" False
        "Some other" other "[192, 168, 1, 30]" "py ''192.168.1.30''"]
    h p s n
  show ?thesis by force
qed

end
